theory Spec2Isabelle
  imports Complex_Main
begin

section \<open>Values of the expression system\<close>

text \<open>
  The module \<open>pyquiz/expr/matrix.py\<close> works on expressions \<open>Expr(head, args)\<close>.
  A matrix is \<open>Expr("matrix", rows)\<close>, its \<open>args\<close> the list of rows, each row a
  list of entries. Entries are exact scalars; the type \<open>'a\<close> of entries is a
  parameter (a commutative ring for the determinant, a field where \<open>frac\<close> divides).
  Everything that is not a matrix is a scalar, a symbol or a sum; the rules below only ask
  such a value whether its head is \<open>"matrix"\<close>.

  Two signals leave a rule: \<open>Inapplicable\<close> (the rule defers) and the hard errors
  (Python exceptions), all of them values of \<open>error\<close>.
\<close>

datatype error =
  Inapplicable | ValueError | IndexError | AssertionError | ZeroDivisionError | NameError

datatype 'a expr =
  Matrix "'a list list" | Scalar 'a | Symbol string | Plus "'a expr list"

text \<open>
  An index or an exponent handed to a rule: a Python \<open>int\<close>, an \<open>Expr\<close>
  (a symbolic value), or a value of any other type (a \<open>Fraction\<close>, a \<open>float\<close>, a
  string, ...), for which both \<open>isinstance(x, Expr)\<close> and \<open>type(x) == int\<close> are false.
\<close>

datatype 'a arg = IntArg int | ExprArg "'a expr" | OtherArg

definition is_matrix :: "'a expr \<Rightarrow> bool" where
  "is_matrix e = (case e of Matrix rs \<Rightarrow> True | _ \<Rightarrow> False)"

text \<open>A list comprehension whose elements may raise: the first error wins.\<close>

fun collect :: "(error + 'b) list \<Rightarrow> error + 'b list" where
  "collect [] = Inr []"
| "collect (x # xs) =
     (case x of
        Inl e \<Rightarrow> Inl e
      | Inr v \<Rightarrow> (case collect xs of Inl e \<Rightarrow> Inl e | Inr vs \<Rightarrow> Inr (v # vs)))"

section \<open>Construction and access\<close>

definition vector :: "'a list \<Rightarrow> error + 'a expr" where
  "vector elts =
     (if length elts = 0 then Inl ValueError
      else Inr (Matrix (map (\<lambda>elt. [elt]) elts)))"

definition matrix :: "'a list list \<Rightarrow> error + 'a expr" where
  "matrix rs =
     (if length rs = 0 then Inl ValueError
      else if list_ex (\<lambda>row. length row \<noteq> length (rs ! 0)) rs then Inl ValueError
      else Inr (Matrix rs))"

definition identity_matrix :: "int \<Rightarrow> error + ('a::{zero,one}) expr" where
  "identity_matrix n =
     (if n \<le> 0 then Inl ValueError
      else matrix (map (\<lambda>i. map (\<lambda>j. if i = j then 1 else 0) [0..<nat n]) [0..<nat n]))"

definition nrows :: "'a expr \<Rightarrow> error + nat" where
  "nrows e = (case e of Matrix rs \<Rightarrow> Inr (length rs) | _ \<Rightarrow> Inl ValueError)"

text \<open>\<open>len(e.args[0])\<close>: an \<open>IndexError\<close> when there is no first row.\<close>

definition ncols :: "'a expr \<Rightarrow> error + nat" where
  "ncols e =
     (case e of
        Matrix rs \<Rightarrow> (case rs of [] \<Rightarrow> Inl IndexError | r # _ \<Rightarrow> Inr (length r))
      | _ \<Rightarrow> Inl ValueError)"

definition rows :: "'a expr \<Rightarrow> error + 'a expr list" where
  "rows e =
     (case e of
        Matrix rs \<Rightarrow> collect (map (\<lambda>row. vector row) rs)
      | _ \<Rightarrow> Inl ValueError)"

text \<open>\<open>all(n == ncols(r) for r in rows)\<close>, stopping at the first mismatch or error.\<close>

fun all_ncols :: "nat \<Rightarrow> 'a expr list \<Rightarrow> error + bool" where
  "all_ncols n [] = Inr True"
| "all_ncols n (r # rs) =
     (case ncols r of
        Inl e \<Rightarrow> Inl e
      | Inr k \<Rightarrow> if n = k then all_ncols n rs else Inr False)"

fun args_of :: "'a expr \<Rightarrow> 'a list list" where
  "args_of (Matrix rs) = rs"
| "args_of _ = []"

definition matrix_with_rows :: "'a expr list \<Rightarrow> error + 'a expr" where
  "matrix_with_rows rs =
     (if length rs = 0 then Inl ValueError
      else if \<not> list_all is_matrix rs then Inl ValueError
      else (case ncols (rs ! 0) of
              Inl e \<Rightarrow> Inl e
            | Inr n \<Rightarrow>
                (case all_ncols n rs of
                   Inl e \<Rightarrow> Inl e
                 | Inr ok \<Rightarrow>
                     if \<not> ok then Inl ValueError
                     else Inr (Matrix (concat (map args_of rs))))))"

section \<open>The indexed-access rules\<close>

text \<open>
  \<open>rule_part_vector(e, idx)\<close>: defers when \<open>e\<close> is no matrix or \<open>idx\<close> is an
  \<open>Expr\<close>; any other index that is not an \<open>int\<close> is a \<open>ValueError\<close>.
  The last line reads \<open>e.args[idx - 1][0]\<close>.
\<close>

definition rule_part_vector :: "'a expr \<Rightarrow> 'a arg \<Rightarrow> error + 'a" where
  "rule_part_vector e idx =
     (case e of
        Matrix rs \<Rightarrow>
          (case idx of
             ExprArg x \<Rightarrow> Inl Inapplicable
           | OtherArg \<Rightarrow> Inl ValueError
           | IntArg i \<Rightarrow>
               (case ncols e of
                  Inl err \<Rightarrow> Inl err
                | Inr c \<Rightarrow>
                    if c \<noteq> 1 then Inl ValueError
                    else if \<not> (1 \<le> i \<and> i \<le> int (length rs)) then Inl ValueError
                    else (case rs ! nat (i - 1) of
                            [] \<Rightarrow> Inl IndexError
                          | v # _ \<Rightarrow> Inr v)))
      | _ \<Rightarrow> Inl Inapplicable)"

text \<open>
  \<open>rule_part_matrix(e, idx1, idx2)\<close>. Its two messages for an index that is not an
  \<open>int\<close> interpolate \<open>idx\<close>, a name this function does not bind, so building the
  message raises \<open>NameError\<close> before the \<open>ValueError\<close> exists.
\<close>

definition rule_part_matrix :: "'a expr \<Rightarrow> 'a arg \<Rightarrow> 'a arg \<Rightarrow> error + 'a" where
  "rule_part_matrix e idx1 idx2 =
     (case e of
        Matrix rs \<Rightarrow>
          (case (idx1, idx2) of
             (ExprArg x, _) \<Rightarrow> Inl Inapplicable
           | (_, ExprArg y) \<Rightarrow> Inl Inapplicable
           | (OtherArg, _) \<Rightarrow> Inl NameError
           | (_, OtherArg) \<Rightarrow> Inl NameError
           | (IntArg i, IntArg j) \<Rightarrow>
               if \<not> (1 \<le> i \<and> i \<le> int (length rs)) then Inl ValueError
               else (case ncols e of
                       Inl err \<Rightarrow> Inl err
                     | Inr c \<Rightarrow>
                         if \<not> (1 \<le> j \<and> j \<le> int c) then Inl ValueError
                         else if nat (j - 1) < length (rs ! nat (i - 1))
                         then Inr (rs ! nat (i - 1) ! nat (j - 1))
                         else Inl IndexError))
      | _ \<Rightarrow> Inl Inapplicable)"

text \<open>
  The data model's invariant, established by the constructor \<open>matrix\<close>: at least one
  row, and every row as long as the first. (The spec also asks for at least one column.)
\<close>

definition wf_matrix :: "'a list list \<Rightarrow> bool" where
  "wf_matrix rs = (rs \<noteq> [] \<and> list_all (\<lambda>row. length row = length (hd rs)) rs)"

definition square :: "'a list list \<Rightarrow> bool" where
  "square rs = (rs \<noteq> [] \<and> list_all (\<lambda>row. length row = length rs) rs)"

text \<open>
  \<open>matrix_with_rows(*rows(A))\<close>: the list returned by \<open>rows\<close> is passed on as the
  arguments of \<open>matrix_with_rows\<close>.
\<close>

definition matrix_with_rows_of_rows :: "'a expr \<Rightarrow> error + 'a expr" where
  "matrix_with_rows_of_rows e =
     (case rows e of Inl err \<Rightarrow> Inl err | Inr vs \<Rightarrow> matrix_with_rows vs)"

text \<open>The value \<open>vector(*row)\<close> of a non-empty row: one entry per matrix row.\<close>

definition column_of :: "'a list \<Rightarrow> 'a expr" where
  "column_of row = Matrix (map (\<lambda>elt. [elt]) row)"

section \<open>Determinant\<close>

text \<open>
  Inside \<open>det\<close>, \<open>expand(rows)\<close> expands along the first column. The loop body builds
  \<open>submatrix = [row[1:] for row in rows[:i] + rows[i+1:]]\<close> and adds
  \<open>(-1) ** i * rows[i][0] * expand(submatrix)\<close> to \<open>acc\<close>, which starts at 0.
  Reading \<open>rows[i][0]\<close> of an empty row is an \<open>IndexError\<close>; the base case asserts
  that the single row has a single entry.
\<close>

definition submatrix :: "'a list list \<Rightarrow> nat \<Rightarrow> 'a list list" where
  "submatrix rs i = map (\<lambda>row. drop 1 row) (take i rs @ drop (i + 1) rs)"

function expand :: "('a::comm_ring_1) list list \<Rightarrow> error + 'a" where
  "expand rs =
     (if length rs = 1 then
        (if length (rs ! 0) = 1 then Inr (rs ! 0 ! 0) else Inl AssertionError)
      else
        fold (\<lambda>i acc.
                case acc of
                  Inl e \<Rightarrow> Inl e
                | Inr a \<Rightarrow>
                    (case rs ! i of
                       [] \<Rightarrow> Inl IndexError
                     | x # _ \<Rightarrow>
                         (case expand (submatrix rs i) of
                            Inl e \<Rightarrow> Inl e
                          | Inr d \<Rightarrow> Inr (a + (- 1) ^ i * x * d))))
          [0..<length rs] (Inr 0))"
  by pat_completeness auto
termination
  by (relation "measure length") (auto simp: submatrix_def)

definition det :: "('a::comm_ring_1) expr \<Rightarrow> error + 'a" where
  "det e =
     (case e of
        Matrix rs \<Rightarrow>
          (case ncols e of
             Inl err \<Rightarrow> Inl err
           | Inr c \<Rightarrow> if length rs \<noteq> c then Inl ValueError else expand rs)
      | _ \<Rightarrow> Inl Inapplicable)"

text \<open>
  The determinant as the specification words it: the single entry of a 1 by 1 matrix, and
  otherwise the sum over \<open>i\<close> from 0 to \<open>n - 1\<close> of \<open>(-1)^i\<close> times \<open>M[i][0]\<close> times the
  determinant of \<open>M\<close> with row \<open>i\<close> and column 0 removed.
\<close>

definition remove_row_col :: "'a list list \<Rightarrow> nat \<Rightarrow> nat \<Rightarrow> 'a list list" where
  "remove_row_col M i j =
     map (\<lambda>row. take j row @ drop (Suc j) row) (take i M @ drop (Suc i) M)"

function cofactor_expansion :: "('a::comm_ring_1) list list \<Rightarrow> 'a" where
  "cofactor_expansion M =
     (if length M = 1 then M ! 0 ! 0
      else (\<Sum>i<length M. (- 1) ^ i * (M ! i ! 0) * cofactor_expansion (remove_row_col M i 0)))"
  by pat_completeness auto
termination
  by (relation "measure length") (auto simp: remove_row_col_def)

declare expand.simps [simp del]
declare cofactor_expansion.simps [simp del]

section \<open>Matrix product, adjugate and integer powers\<close>

text \<open>
  Modelled from the spec: \<open>irange\<close>, the 1-based integer range generator of the core
  module, which is not among the sources; \<open>irange(n)\<close> runs through 1, ..., n (the
  docstring of \<open>vector_of\<close> shows \<open>irange(3)\<close> giving the indices 1, 2, 3).
\<close>

definition irange :: "nat \<Rightarrow> int list" where
  "irange n = map int [1..<Suc n]"

text \<open>
  \<open>reduce_matmul(A, B)\<close>. The entries are read as \<open>A[i,k]\<close> and \<open>B[k,j]\<close>, that is
  through the two-index access rule with 1-based integer indices; \<open>x\<close> starts at 0 and
  \<open>x += A[i,k] * B[k,j]\<close> runs over \<open>k\<close> in \<open>irange(ncols(A))\<close>.
\<close>

fun dot_loop ::
  "('a::comm_ring_1) expr \<Rightarrow> 'a expr \<Rightarrow> int \<Rightarrow> int \<Rightarrow> int list \<Rightarrow> 'a \<Rightarrow> error + 'a" where
  "dot_loop A B i j [] x = Inr x"
| "dot_loop A B i j (k # ks) x =
     (case rule_part_matrix A (IntArg i) (IntArg k) of
        Inl e \<Rightarrow> Inl e
      | Inr a \<Rightarrow>
          (case rule_part_matrix B (IntArg k) (IntArg j) of
             Inl e \<Rightarrow> Inl e
           | Inr b \<Rightarrow> dot_loop A B i j ks (x + a * b)))"

definition matmul_row :: "('a::comm_ring_1) expr \<Rightarrow> 'a expr \<Rightarrow> nat \<Rightarrow> int \<Rightarrow> error + 'a list" where
  "matmul_row A B ca i =
     (case ncols B of
        Inl e \<Rightarrow> Inl e
      | Inr cb \<Rightarrow> collect (map (\<lambda>j. dot_loop A B i j (irange ca) 0) (irange cb)))"

definition reduce_matmul :: "('a::comm_ring_1) expr \<Rightarrow> 'a expr \<Rightarrow> error + 'a expr" where
  "reduce_matmul A B =
     (if \<not> is_matrix A \<or> \<not> is_matrix B then Inl Inapplicable
      else
        (case ncols A of
           Inl e \<Rightarrow> Inl e
         | Inr ca \<Rightarrow>
             (case nrows B of
                Inl e \<Rightarrow> Inl e
              | Inr rb \<Rightarrow>
                  if ca \<noteq> rb then Inl ValueError
                  else
                    (case nrows A of
                       Inl e \<Rightarrow> Inl e
                     | Inr ra \<Rightarrow>
                         (case collect (map (\<lambda>i. matmul_row A B ca i) (irange ra)) of
                            Inl e \<Rightarrow> Inl e
                          | Inr C \<Rightarrow> matrix C)))))"

text \<open>
  \<open>adj(e)\<close>. The cofactor \<open>C(i0, j0)\<close> builds
  \<open>rows2 = [[v for j,v in enumerate(row) if j != j0] for i,row in enumerate(rows) if i != i0]\<close>
  and returns \<open>det(matrix(*rows2))\<close>; the constructor \<open>matrix\<close> refuses an empty list
  of rows. The result is \<open>matrix(*[[(-1)**(i + j) * C(j, i) for j in range(n)] for i in range(n)])\<close>.
\<close>

definition delete_at :: "nat \<Rightarrow> 'b list \<Rightarrow> 'b list" where
  "delete_at k xs = map snd (filter (\<lambda>(j, v). j \<noteq> k) (enumerate 0 xs))"

definition cofactor_C :: "('a::comm_ring_1) list list \<Rightarrow> nat \<Rightarrow> nat \<Rightarrow> error + 'a" where
  "cofactor_C rs i0 j0 =
     (case matrix (map (delete_at j0) (delete_at i0 rs)) of
        Inl e \<Rightarrow> Inl e
      | Inr m \<Rightarrow> det m)"

definition adj :: "('a::comm_ring_1) expr \<Rightarrow> error + 'a expr" where
  "adj e =
     (case e of
        Matrix rs \<Rightarrow>
          (case rs of
             [] \<Rightarrow> Inl IndexError
           | r0 # _ \<Rightarrow>
               if length rs \<noteq> length r0 then Inl ValueError
               else
                 (case collect (map (\<lambda>i. collect (map (\<lambda>j.
                          case cofactor_C rs j i of
                            Inl err \<Rightarrow> Inl err
                          | Inr c \<Rightarrow> Inr ((- 1) ^ (i + j) * c))
                        [0..<length rs])) [0..<length rs]) of
                    Inl err \<Rightarrow> Inl err
                  | Inr rows' \<Rightarrow> matrix rows'))
      | _ \<Rightarrow> Inl Inapplicable)"

text \<open>
  Modelled from the spec: \<open>frac\<close>, the exact-rational constructor of the arithmetic
  module, which is not among the sources. The spec asks that division by a zero
  determinant surface as a hard error.
\<close>

definition frac :: "('a::field) \<Rightarrow> 'a \<Rightarrow> error + 'a" where
  "frac a b = (if b = 0 then Inl ZeroDivisionError else Inr (a / b))"

text \<open>
  \<open>reduce_matrix_inverse(A, n)\<close>, the rule for \<open>Pow\<close>. Its loop
  \<open>i = 1; while i <= npos: if i & npos: P = P @ B; i = i << 1; B = B @ B\<close>
  is a function of the loop state; a state from which the loop does not return has no
  value (\<open>None\<close>). \<open>P @ B\<close> is the matrix-product rule.
\<close>

partial_function (option) pow_loop ::
  "int \<Rightarrow> int \<Rightarrow> ('a::comm_ring_1) expr \<Rightarrow> 'a expr \<Rightarrow> (error + 'a expr) option" where
  "pow_loop i npos P B =
     (if i \<le> npos then
        (case (if and i npos \<noteq> 0 then reduce_matmul P B else Inr P) of
           Inl e \<Rightarrow> Some (Inl e)
         | Inr P' \<Rightarrow>
             (case reduce_matmul B B of
                Inl e \<Rightarrow> Some (Inl e)
              | Inr B' \<Rightarrow> pow_loop (push_bit 1 i) npos P' B'))
      else Some (Inr P))"

declare pow_loop.simps [code]

definition reduce_matrix_inverse ::
  "('a::field) expr \<Rightarrow> 'a arg \<Rightarrow> (error + 'a expr) option" where
  "reduce_matrix_inverse A n =
     (case n of
        IntArg n \<Rightarrow>
          if \<not> is_matrix A then Some (Inl Inapplicable)
          else
            (case nrows A of
               Inl e \<Rightarrow> Some (Inl e)
             | Inr r \<Rightarrow>
                 (case ncols A of
                    Inl e \<Rightarrow> Some (Inl e)
                  | Inr c \<Rightarrow>
                      if r \<noteq> c then Some (Inl ValueError)
                      else
                        (case identity_matrix (int r) of
                           Inl e \<Rightarrow> Some (Inl e)
                         | Inr I \<Rightarrow>
                             (case pow_loop 1 (abs n) I A of
                                None \<Rightarrow> None
                              | Some (Inl e) \<Rightarrow> Some (Inl e)
                              | Some (Inr P) \<Rightarrow>
                                  if n \<ge> 0 then Some (Inr P)
                                  else
                                    (case det P of
                                       Inl e \<Rightarrow> Some (Inl e)
                                     | Inr d \<Rightarrow>
                                         (case adj P of
                                            Inl e \<Rightarrow> Some (Inl e)
                                          | Inr a \<Rightarrow>
                                              (case collect (map (\<lambda>row. collect (map (\<lambda>v. frac v d) row))
                                                       (args_of a)) of
                                                 Inl e \<Rightarrow> Some (Inl e)
                                               | Inr rs \<Rightarrow> Some (matrix rs))))))))
      | _ \<Rightarrow> Some (Inl Inapplicable))"

text \<open>The rows \<open>[[1 if i == j else 0 for j in range(n)] for i in range(n)]\<close>.\<close>

definition identity_rows :: "nat \<Rightarrow> ('a::{zero,one}) list list" where
  "identity_rows n = map (\<lambda>i. map (\<lambda>j. if i = j then 1 else 0) [0..<n]) [0..<n]"

section \<open>The addition rule\<close>

text \<open>
  \<open>rule_matrix_addition(*args)\<close>. The outer loop runs \<open>i\<close> over
  \<open>range(len(args) - 1)\<close>, the inner loop \<open>j\<close> over \<open>range(i + 1, len(args))\<close>; both
  skip operands whose head is not \<open>"matrix"\<close>. At the first \<open>j\<close> that is a matrix the
  rule returns or raises; \<open>None\<close> below means that the inner loop ran to its end.
\<close>

definition pair_sum :: "('a::plus) expr list \<Rightarrow> nat \<Rightarrow> nat \<Rightarrow> error + 'a expr" where
  "pair_sum args i j =
     (case nrows (args ! i) of
        Inl e \<Rightarrow> Inl e
      | Inr ri \<Rightarrow>
     (case nrows (args ! j) of
        Inl e \<Rightarrow> Inl e
      | Inr rj \<Rightarrow>
          if ri \<noteq> rj then Inl ValueError
          else
     (case ncols (args ! i) of
        Inl e \<Rightarrow> Inl e
      | Inr ci \<Rightarrow>
     (case ncols (args ! j) of
        Inl e \<Rightarrow> Inl e
      | Inr cj \<Rightarrow>
          if ci \<noteq> cj then Inl ValueError
          else
            Inr (Plus (take i args
                       @ [Matrix (map2 (\<lambda>rowi rowj. map2 (\<lambda>ci cj. ci + cj) rowi rowj)
                                    (args_of (args ! i)) (args_of (args ! j)))]
                       @ drop (i + 1) (take j args)
                       @ drop (j + 1) args))))))"

fun inner_scan :: "('a::plus) expr list \<Rightarrow> nat \<Rightarrow> nat list \<Rightarrow> (error + 'a expr) option" where
  "inner_scan args i [] = None"
| "inner_scan args i (j # js) =
     (if \<not> is_matrix (args ! j) then inner_scan args i js
      else Some (pair_sum args i j))"

fun outer_scan :: "('a::plus) expr list \<Rightarrow> nat list \<Rightarrow> error + 'a expr" where
  "outer_scan args [] = Inl Inapplicable"
| "outer_scan args (i # is) =
     (if \<not> is_matrix (args ! i) then outer_scan args is
      else
        (case inner_scan args i [i + 1..<length args] of
           Some r \<Rightarrow> r
         | None \<Rightarrow> outer_scan args is))"

definition rule_matrix_addition :: "('a::plus) expr list \<Rightarrow> error + 'a expr" where
  "rule_matrix_addition args = outer_scan args [0..<length args - 1]"

text \<open>The positions of the matrix operands of a sum, in order.\<close>

definition matrix_positions :: "'a expr list \<Rightarrow> nat list" where
  "matrix_positions args = filter (\<lambda>k. is_matrix (args ! k)) [0..<length args]"

text \<open>An operand that is a matrix satisfies the invariant of matrices.\<close>

definition valid_operand :: "'a expr \<Rightarrow> bool" where
  "valid_operand e = (case e of Matrix rs \<Rightarrow> wf_matrix rs | _ \<Rightarrow> True)"

section \<open>Row reduction\<close>

text \<open>
  \<open>row_reduce\<close> works on \<open>mat\<close>, a copy of the rows of its argument
  (\<open>mat = [[v for v in row] for row in e.args]\<close>), with \<open>rows = len(mat)\<close> and
  \<open>cols = len(mat[0])\<close>. Its three row operations change \<open>mat\<close> and, when
  \<open>steps_out\<close> is given, append one line of TeX to it. The text of a line is a
  rendering matter; a line is modelled by the operation it describes.
\<close>

datatype 'a step = Swap nat nat | Scale nat 'a | Replace nat nat 'a

type_synonym 'a rr_state = "'a list list \<times> 'a step list"

text \<open>\<open>mat[i], mat[j] = mat[j], mat[i]\<close>\<close>

definition swap_rows :: "nat \<Rightarrow> nat \<Rightarrow> 'a list list \<Rightarrow> 'a list list" where
  "swap_rows i j m = m[i := m ! j, j := m ! i]"

text \<open>\<open>for k in range(cols): mat[i][k] *= c\<close>, on a row of \<open>cols\<close> entries.\<close>

definition scale_row :: "nat \<Rightarrow> nat \<Rightarrow> ('a::field) \<Rightarrow> 'a list list \<Rightarrow> 'a list list" where
  "scale_row cols i c m = m[i := map (\<lambda>k. m ! i ! k * c) [0..<cols]]"

text \<open>\<open>for k in range(cols): mat[i][k] += c * mat[j][k]\<close>, on rows of \<open>cols\<close> entries.\<close>

definition replace_row :: "nat \<Rightarrow> nat \<Rightarrow> nat \<Rightarrow> ('a::field) \<Rightarrow> 'a list list \<Rightarrow> 'a list list" where
  "replace_row cols i j c m = m[i := map (\<lambda>k. m ! i ! k + c * m ! j ! k) [0..<cols]]"

definition swap :: "nat \<Rightarrow> nat \<Rightarrow> 'a rr_state \<Rightarrow> 'a rr_state" where
  "swap i j s = (swap_rows i j (fst s), snd s @ [Swap i j])"

definition scale :: "nat \<Rightarrow> nat \<Rightarrow> ('a::field) \<Rightarrow> 'a rr_state \<Rightarrow> 'a rr_state" where
  "scale cols i c s = (scale_row cols i c (fst s), snd s @ [Scale i c])"

definition replace :: "nat \<Rightarrow> nat \<Rightarrow> nat \<Rightarrow> ('a::field) \<Rightarrow> 'a rr_state \<Rightarrow> 'a rr_state" where
  "replace cols i j c s = (replace_row cols i j c (fst s), snd s @ [Replace i j c])"

text \<open>\<open>all(mat[i][k] == 0 for k in range(cols))\<close>\<close>

definition is_zero :: "nat \<Rightarrow> ('a::field) list list \<Rightarrow> nat \<Rightarrow> bool" where
  "is_zero cols m i = list_all (\<lambda>k. m ! i ! k = 0) [0..<cols]"

text \<open>\<open>while last_nz >= 0 and is_zero(last_nz): last_nz -= 1\<close>\<close>

function last_nz_loop :: "nat \<Rightarrow> ('a::field) list list \<Rightarrow> int \<Rightarrow> int" where
  "last_nz_loop cols m last_nz =
     (if last_nz \<ge> 0 \<and> is_zero cols m (nat last_nz) then last_nz_loop cols m (last_nz - 1)
      else last_nz)"
  by pat_completeness auto
termination
  by (relation "measure (\<lambda>(cols, m, last_nz). nat (last_nz + 1))") auto

declare last_nz_loop.simps [simp del]

text \<open>
  The body of the main loop, in four parts. First: a zero row at the cursor is swapped
  with row \<open>last_nz\<close>, and \<open>last_nz\<close> decreases (the loop has already stopped when
  \<open>i >= last_nz\<close>).
\<close>

definition push_zero_row ::
  "nat \<Rightarrow> nat \<Rightarrow> int \<Rightarrow> ('a::field) rr_state \<Rightarrow> int \<times> 'a rr_state" where
  "push_zero_row cols i last_nz s =
     (if is_zero cols (fst s) i then (last_nz - 1, swap i (nat last_nz) s) else (last_nz, s))"

text \<open>
  Second: \<open>if mat[i][j] == 0: for k in range(i + 1, last_nz + 1): if mat[k][j] != 0:
  swap(i, k); break\<close>
\<close>

definition find_pivot :: "nat \<Rightarrow> nat \<Rightarrow> int \<Rightarrow> ('a::field) rr_state \<Rightarrow> 'a rr_state" where
  "find_pivot i j last_nz s =
     (if fst s ! i ! j = 0 then
        (case find (\<lambda>k. fst s ! k ! j \<noteq> 0) [i + 1..<nat (last_nz + 1)] of
           None \<Rightarrow> s
         | Some k \<Rightarrow> swap i k s)
      else s)"

text \<open>
  Third: \<open>if mat[i][j] != 1: scale(i, frac(1, mat[i][j]))\<close>, reached only when
  \<open>mat[i][j]\<close> is not 0, where \<open>frac(1, x)\<close> is the exact quotient.
\<close>

definition normalize_pivot :: "nat \<Rightarrow> nat \<Rightarrow> nat \<Rightarrow> ('a::field) rr_state \<Rightarrow> 'a rr_state" where
  "normalize_pivot cols i j s =
     (if fst s ! i ! j \<noteq> 1 then scale cols i (1 / (fst s ! i ! j)) s else s)"

text \<open>
  Fourth: \<open>for k in range(i + 1, last_nz + 1): if mat[k][j] != 0:
  replace(k, i, -mat[k][j])\<close>
\<close>

definition eliminate ::
  "nat \<Rightarrow> nat \<Rightarrow> nat \<Rightarrow> nat list \<Rightarrow> ('a::field) rr_state \<Rightarrow> 'a rr_state" where
  "eliminate cols i j ks s =
     fold (\<lambda>k s. if fst s ! k ! j \<noteq> 0 then replace cols k i (- (fst s ! k ! j)) s else s) ks s"

text \<open>
  The main loop \<open>while i < rows and j < to_col\<close> (\<open>rws\<close> stands for the
  variable \<open>rows\<close>); it returns \<open>last_nz\<close> with the
  state, since the backward pass starts from \<open>last_nz\<close>.
\<close>

function forward ::
  "nat \<Rightarrow> nat \<Rightarrow> int \<Rightarrow> nat \<Rightarrow> nat \<Rightarrow> int \<Rightarrow> ('a::field) rr_state \<Rightarrow> int \<times> 'a rr_state" where
  "forward rws cols to_col i j last_nz s =
     (if i < rws \<and> int j < to_col then
        if is_zero cols (fst s) i \<and> int i \<ge> last_nz then (last_nz, s)
        else
          (case push_zero_row cols i last_nz s of
             (last_nz1, s1) \<Rightarrow>
               (case find_pivot i j last_nz1 s1 of
                  s2 \<Rightarrow>
                    if fst s2 ! i ! j = 0 then forward rws cols to_col i (j + 1) last_nz1 s2
                    else
                      forward rws cols to_col (i + 1) (j + 1) last_nz1
                        (eliminate cols i j [i + 1..<nat (last_nz1 + 1)]
                           (normalize_pivot cols i j s2))))
      else (last_nz, s))"
  by pat_completeness auto
termination
  by (relation "measure (\<lambda>(rws, cols, to_col, i, j, last_nz, s). nat (to_col - int j))") auto

declare forward.simps [simp del]

text \<open>
  The backward pass: \<open>for i in range(last_nz, -1, -1): for j in range(to_col):
  if mat[i][j] != 0: for k in range(i - 1, -1, -1): if mat[k][j] != 0:
  replace(k, i, -mat[k][j]); break\<close> (the \<open>break\<close> leaves the loop over \<open>j\<close>).
\<close>

definition clear_above :: "nat \<Rightarrow> int \<Rightarrow> nat \<Rightarrow> ('a::field) rr_state \<Rightarrow> 'a rr_state" where
  "clear_above cols to_col i s =
     (case find (\<lambda>j. fst s ! i ! j \<noteq> 0) [0..<nat to_col] of
        None \<Rightarrow> s
      | Some j \<Rightarrow> eliminate cols i j (rev [0..<i]) s)"

definition backward :: "nat \<Rightarrow> int \<Rightarrow> int \<Rightarrow> ('a::field) rr_state \<Rightarrow> 'a rr_state" where
  "backward cols to_col last_nz s =
     fold (\<lambda>i s. clear_above cols to_col i s) (rev [0..<nat (last_nz + 1)]) s"

text \<open>
  \<open>row_reduce(e, rref, steps_out, to_col)\<close>. \<open>steps_out\<close> is \<open>None\<close> or the list to
  extend; \<open>to_col\<close> is \<open>None\<close>, an \<open>int\<close>, or a value of another type, which is a
  \<open>ValueError\<close>. The result is \<open>matrix(*mat)\<close> together with the list \<open>steps_out\<close>
  as the call leaves it.
\<close>

definition row_reduce ::
  "('a::field) expr \<Rightarrow> bool \<Rightarrow> 'a step list option \<Rightarrow> 'a arg option
     \<Rightarrow> error + ('a expr \<times> 'a step list option)" where
  "row_reduce e rref steps_out to_col =
     (case e of
        Matrix rs \<Rightarrow>
          (case rs of
             [] \<Rightarrow> Inl IndexError
           | r0 # _ \<Rightarrow>
               (case (case to_col of None \<Rightarrow> Inr (int (length r0))
                      | Some (IntArg t) \<Rightarrow> Inr t
                      | Some _ \<Rightarrow> Inl ValueError) of
                  Inl err \<Rightarrow> Inl err
                | Inr t \<Rightarrow>
                    (case forward (length rs) (length r0) (min (int (length r0)) t) 0 0
                            (last_nz_loop (length r0) rs (int (length rs) - 1)) (rs, []) of
                       (last_nz, s) \<Rightarrow>
                         (case (if rref
                                then backward (length r0) (min (int (length r0)) t) last_nz s
                                else s) of
                            (mat, lines) \<Rightarrow>
                              (case matrix mat of
                                 Inl err \<Rightarrow> Inl err
                               | Inr m \<Rightarrow> Inr (m, map_option (\<lambda>out. out @ lines) steps_out))))))
      | _ \<Rightarrow> Inl ValueError)"



text \<open>A list of \<open>rws\<close> rows, each of \<open>cols\<close> entries.\<close>

definition shaped :: "nat \<Rightarrow> nat \<Rightarrow> 'a list list \<Rightarrow> bool" where
  "shaped rws cols m = (length m = rws \<and> (\<forall>r\<in>set m. length r = cols))"

text \<open>
  The matrix that \<open>row_reduce\<close> leaves in \<open>mat\<close>, for the default \<open>to_col\<close>: the
  forward pass, followed by the backward pass when \<open>rref\<close> is set.
\<close>

definition reduced_rows :: "bool \<Rightarrow> ('a::field) list list \<Rightarrow> 'a rr_state" where
  "reduced_rows rref rs =
     (case forward (length rs) (length (hd rs)) (int (length (hd rs))) 0 0
             (last_nz_loop (length (hd rs)) rs (int (length rs) - 1)) (rs, []) of
        (last_nz, s) \<Rightarrow>
          if rref then backward (length (hd rs)) (int (length (hd rs))) last_nz s else s)"

section \<open>Row reduction on a store of list objects\<close>

text \<open>
  Python lists are objects: \<open>e.args\<close> holds references to the row lists of the
  argument, and \<open>row_reduce\<close> mutates lists in place. To state what the call may
  change, the rows live in a store, a list of objects indexed by their address (a new
  object is appended at the end), and a matrix is the list of the addresses of its rows.
  The working copy \<open>mat = [[v for v in row] for row in e.args]\<close> allocates one new
  list per row; \<open>mat\<close> itself is the list of these new addresses. The list
  \<open>steps_out\<close>, of a different element type, is a separate component.
\<close>

record 'a hstate =
  store :: "'a list list"
  mat :: "nat list"
  lines :: "'a step list"

text \<open>\<open>mat[i][k]\<close>\<close>

definition entry :: "'a hstate \<Rightarrow> nat \<Rightarrow> nat \<Rightarrow> 'a" where
  "entry s i k = store s ! (mat s ! i) ! k"

definition swap_h :: "nat \<Rightarrow> nat \<Rightarrow> 'a hstate \<Rightarrow> 'a hstate" where
  "swap_h i j s =
     s\<lparr>mat := (mat s)[i := mat s ! j, j := mat s ! i], lines := lines s @ [Swap i j]\<rparr>"

definition scale_h :: "nat \<Rightarrow> nat \<Rightarrow> ('a::field) \<Rightarrow> 'a hstate \<Rightarrow> 'a hstate" where
  "scale_h cols i c s =
     s\<lparr>store := (store s)[mat s ! i := map (\<lambda>k. entry s i k * c) [0..<cols]],
       lines := lines s @ [Scale i c]\<rparr>"

definition replace_h :: "nat \<Rightarrow> nat \<Rightarrow> nat \<Rightarrow> ('a::field) \<Rightarrow> 'a hstate \<Rightarrow> 'a hstate" where
  "replace_h cols i j c s =
     s\<lparr>store := (store s)[mat s ! i := map (\<lambda>k. entry s i k + c * entry s j k) [0..<cols]],
       lines := lines s @ [Replace i j c]\<rparr>"

definition is_zero_h :: "nat \<Rightarrow> ('a::field) hstate \<Rightarrow> nat \<Rightarrow> bool" where
  "is_zero_h cols s i = list_all (\<lambda>k. entry s i k = 0) [0..<cols]"

function last_nz_loop_h :: "nat \<Rightarrow> ('a::field) hstate \<Rightarrow> int \<Rightarrow> int" where
  "last_nz_loop_h cols s last_nz =
     (if last_nz \<ge> 0 \<and> is_zero_h cols s (nat last_nz) then last_nz_loop_h cols s (last_nz - 1)
      else last_nz)"
  by pat_completeness auto
termination
  by (relation "measure (\<lambda>(cols, s, last_nz). nat (last_nz + 1))") auto

declare last_nz_loop_h.simps [simp del]

definition push_zero_row_h ::
  "nat \<Rightarrow> nat \<Rightarrow> int \<Rightarrow> ('a::field) hstate \<Rightarrow> int \<times> 'a hstate" where
  "push_zero_row_h cols i last_nz s =
     (if is_zero_h cols s i then (last_nz - 1, swap_h i (nat last_nz) s) else (last_nz, s))"

definition find_pivot_h :: "nat \<Rightarrow> nat \<Rightarrow> int \<Rightarrow> ('a::field) hstate \<Rightarrow> 'a hstate" where
  "find_pivot_h i j last_nz s =
     (if entry s i j = 0 then
        (case find (\<lambda>k. entry s k j \<noteq> 0) [i + 1..<nat (last_nz + 1)] of
           None \<Rightarrow> s
         | Some k \<Rightarrow> swap_h i k s)
      else s)"

definition normalize_pivot_h :: "nat \<Rightarrow> nat \<Rightarrow> nat \<Rightarrow> ('a::field) hstate \<Rightarrow> 'a hstate" where
  "normalize_pivot_h cols i j s =
     (if entry s i j \<noteq> 1 then scale_h cols i (1 / entry s i j) s else s)"

definition eliminate_h ::
  "nat \<Rightarrow> nat \<Rightarrow> nat \<Rightarrow> nat list \<Rightarrow> ('a::field) hstate \<Rightarrow> 'a hstate" where
  "eliminate_h cols i j ks s =
     fold (\<lambda>k s. if entry s k j \<noteq> 0 then replace_h cols k i (- entry s k j) s else s) ks s"

function forward_h ::
  "nat \<Rightarrow> nat \<Rightarrow> int \<Rightarrow> nat \<Rightarrow> nat \<Rightarrow> int \<Rightarrow> ('a::field) hstate \<Rightarrow> int \<times> 'a hstate" where
  "forward_h rws cols to_col i j last_nz s =
     (if i < rws \<and> int j < to_col then
        if is_zero_h cols s i \<and> int i \<ge> last_nz then (last_nz, s)
        else
          (case push_zero_row_h cols i last_nz s of
             (last_nz1, s1) \<Rightarrow>
               (case find_pivot_h i j last_nz1 s1 of
                  s2 \<Rightarrow>
                    if entry s2 i j = 0 then forward_h rws cols to_col i (j + 1) last_nz1 s2
                    else
                      forward_h rws cols to_col (i + 1) (j + 1) last_nz1
                        (eliminate_h cols i j [i + 1..<nat (last_nz1 + 1)]
                           (normalize_pivot_h cols i j s2))))
      else (last_nz, s))"
  by pat_completeness auto
termination
  by (relation "measure (\<lambda>(rws, cols, to_col, i, j, last_nz, s). nat (to_col - int j))") auto

declare forward_h.simps [simp del]

definition clear_above_h :: "nat \<Rightarrow> int \<Rightarrow> nat \<Rightarrow> ('a::field) hstate \<Rightarrow> 'a hstate" where
  "clear_above_h cols to_col i s =
     (case find (\<lambda>j. entry s i j \<noteq> 0) [0..<nat to_col] of
        None \<Rightarrow> s
      | Some j \<Rightarrow> eliminate_h cols i j (rev [0..<i]) s)"

definition backward_h :: "nat \<Rightarrow> int \<Rightarrow> int \<Rightarrow> ('a::field) hstate \<Rightarrow> 'a hstate" where
  "backward_h cols to_col last_nz s =
     fold (\<lambda>i s. clear_above_h cols to_col i s) (rev [0..<nat (last_nz + 1)]) s"

text \<open>
  The call \<open>row_reduce(e, rref, steps_out, to_col)\<close> in a store \<open>st\<close>, for a matrix
  \<open>e\<close> whose \<open>args\<close> are the addresses \<open>e_args\<close>. It returns the store after the
  call, the addresses of the rows of the result (\<open>matrix(*mat)\<close> keeps the row lists of
  \<open>mat\<close>) and \<open>steps_out\<close>.
\<close>

definition row_reduce_h ::
  "('a::field) list list \<Rightarrow> nat list \<Rightarrow> bool \<Rightarrow> 'a step list option \<Rightarrow> 'a arg option
     \<Rightarrow> error + ('a list list \<times> nat list \<times> 'a step list option)" where
  "row_reduce_h st e_args rref steps_out to_col =
     (case e_args of
        [] \<Rightarrow> Inl IndexError
      | a0 # _ \<Rightarrow>
          (case (case to_col of None \<Rightarrow> Inr (int (length (st ! a0)))
                 | Some (IntArg t) \<Rightarrow> Inr t
                 | Some _ \<Rightarrow> Inl ValueError) of
             Inl err \<Rightarrow> Inl err
           | Inr t \<Rightarrow>
               (case \<lparr>store = st @ map (\<lambda>a. st ! a) e_args,
                      mat = [length st..<length st + length e_args],
                      lines = []\<rparr> of
                  s0 \<Rightarrow>
               (case forward_h (length e_args) (length (st ! a0)) (min (int (length (st ! a0))) t)
                       0 0 (last_nz_loop_h (length (st ! a0)) s0 (int (length e_args) - 1)) s0 of
                  (last_nz, s) \<Rightarrow>
               (case (if rref
                      then backward_h (length (st ! a0)) (min (int (length (st ! a0))) t) last_nz s
                      else s) of
                  s' \<Rightarrow>
                    if length (mat s') = 0 then Inl ValueError
                    else if list_ex (\<lambda>a. length (store s' ! a) \<noteq> length (store s' ! (mat s' ! 0))) (mat s')
                    then Inl ValueError
                    else Inr (store s', mat s', map_option (\<lambda>out. out @ lines s') steps_out))))))"

text \<open>
  What the working state of a call started in the store \<open>st0\<close> keeps true: the
  objects of \<open>st0\<close> are as they were, \<open>rws\<close> new objects of \<open>cols\<close> entries each
  have been added, and \<open>mat\<close> holds \<open>rws\<close> addresses of new objects.
\<close>

definition private_copy :: "'a list list \<Rightarrow> nat \<Rightarrow> nat \<Rightarrow> 'a hstate \<Rightarrow> bool" where
  "private_copy st0 rws cols s =
     (take (length st0) (store s) = st0
      \<and> length (store s) = length st0 + rws
      \<and> length (mat s) = rws
      \<and> (\<forall>a\<in>set (mat s). length st0 \<le> a \<and> a < length st0 + rws)
      \<and> (\<forall>a. length st0 \<le> a \<and> a < length st0 + rws \<longrightarrow> length (store s ! a) = cols))"

text \<open>
  A matrix in a store: at least one row, every row address allocated, every row as long
  as the first. The argument \<open>to_col\<close> is valid when it is \<open>None\<close> or an \<open>int\<close>.
\<close>

definition rows_in_store :: "'a list list \<Rightarrow> nat list \<Rightarrow> bool" where
  "rows_in_store st e_args =
     (e_args \<noteq> [] \<and> list_all (\<lambda>a. a < length st \<and> length (st ! a) = length (st ! hd e_args)) e_args)"

definition valid_to_col :: "'a arg option \<Rightarrow> bool" where
  "valid_to_col to_col = (case to_col of None \<Rightarrow> True | Some (IntArg t) \<Rightarrow> True | Some _ \<Rightarrow> False)"

section \<open>Echelon forms\<close>

text \<open>
  The first \<open>length cs\<close> rows of \<open>m\<close> are pivot rows: row \<open>t\<close> has its first non-zero
  entry, a 1, in column \<open>cs ! t\<close>, and these columns increase; all of them are left of
  column \<open>j\<close>, and the rows below the pivot rows are zero left of column \<open>j\<close>.
\<close>

definition echelon :: "nat \<Rightarrow> ('a::field) list list \<Rightarrow> nat list \<Rightarrow> nat \<Rightarrow> bool" where
  "echelon rws m cs j =
     (sorted_wrt (<) cs \<and> (\<forall>c\<in>set cs. c < j) \<and> length cs \<le> rws
      \<and> (\<forall>t<length cs. m ! t ! (cs ! t) = 1 \<and> (\<forall>k<cs ! t. m ! t ! k = 0))
      \<and> (\<forall>r. length cs \<le> r \<and> r < rws \<longrightarrow> (\<forall>k<j. m ! r ! k = 0)))"

text \<open>Every row after row \<open>last_nz\<close> is a zero row.\<close>

definition zeros_after :: "nat \<Rightarrow> nat \<Rightarrow> ('a::field) list list \<Rightarrow> int \<Rightarrow> bool" where
  "zeros_after rws cols m last_nz =
     (- 1 \<le> last_nz \<and> last_nz < int rws
      \<and> (\<forall>r. last_nz < int r \<and> r < rws \<longrightarrow> (\<forall>k<cols. m ! r ! k = 0)))"

text \<open>What the main loop of \<open>row_reduce\<close> keeps true at its head.\<close>

definition forward_inv ::
  "nat \<Rightarrow> nat \<Rightarrow> nat \<Rightarrow> nat \<Rightarrow> int \<Rightarrow> ('a::field) rr_state \<Rightarrow> bool" where
  "forward_inv rws cols i j last_nz s =
     ((\<exists>cs. length cs = i \<and> echelon rws (fst s) cs j)
      \<and> shaped rws cols (fst s) \<and> j \<le> cols \<and> zeros_after rws cols (fst s) last_nz)"

text \<open>
  Reduced row echelon form: an echelon form over all columns in which every pivot is the
  only non-zero entry of its column.
\<close>

definition rref_form :: "nat \<Rightarrow> nat \<Rightarrow> ('a::field) list list \<Rightarrow> nat list \<Rightarrow> bool" where
  "rref_form rws cols m cs =
     (shaped rws cols m \<and> echelon rws m cs cols
      \<and> (\<forall>t<length cs. \<forall>r<rws. r \<noteq> t \<longrightarrow> m ! r ! (cs ! t) = 0))"

text \<open>
  The elementary row operation a line of the trace stands for, and the lines that are
  elementary operations on a matrix of \<open>rws\<close> rows: a swap of two rows, a scaling by
  a non-zero factor, the addition of a multiple of another row.
\<close>

fun apply_step :: "nat \<Rightarrow> ('a::field) step \<Rightarrow> 'a list list \<Rightarrow> 'a list list" where
  "apply_step cols (Swap i j) m = swap_rows i j m"
| "apply_step cols (Scale i c) m = scale_row cols i c m"
| "apply_step cols (Replace i j c) m = replace_row cols i j c m"

fun elementary :: "nat \<Rightarrow> ('a::field) step \<Rightarrow> bool" where
  "elementary rws (Swap i j) = (i < rws \<and> j < rws)"
| "elementary rws (Scale i c) = (i < rws \<and> c \<noteq> 0)"
| "elementary rws (Replace i j c) = (i < rws \<and> j < rws \<and> i \<noteq> j)"

text \<open>
  The working matrix is the matrix \<open>A\<close> the call started from, transformed by the
  operations recorded so far, each of them elementary.
\<close>

definition trace_inv :: "('a::field) list list \<Rightarrow> nat \<Rightarrow> nat \<Rightarrow> 'a rr_state \<Rightarrow> bool" where
  "trace_inv A rws cols s =
     (fst s = fold (apply_step cols) (snd s) A \<and> list_all (elementary rws) (snd s))"

text \<open>
  What the backward pass keeps true when the rows from \<open>q\<close> on have been handled: the
  matrix is still an echelon form with pivot columns \<open>cs\<close>, and the pivots of the rows
  from \<open>q\<close> on are the only non-zero entries of their columns.
\<close>

definition backward_inv ::
  "nat \<Rightarrow> nat \<Rightarrow> nat list \<Rightarrow> nat \<Rightarrow> ('a::field) list list \<Rightarrow> bool" where
  "backward_inv rws cols cs q m =
     (shaped rws cols m \<and> echelon rws m cs cols
      \<and> (\<forall>t. q \<le> t \<and> t < length cs \<longrightarrow> (\<forall>r<rws. r \<noteq> t \<longrightarrow> m ! r ! (cs ! t) = 0)))"

section \<open>Basic facts about the constructors\<close>

lemma collect_map_Inr: "collect (map (\<lambda>x. Inr (f x)) xs) = Inr (map f xs)"
  by (induction xs) simp_all

lemma wf_matrix_rows_length:
  "wf_matrix rs \<Longrightarrow> row \<in> set rs \<Longrightarrow> length row = length (hd rs)"
  unfolding wf_matrix_def list_all_iff by blast

lemma wf_matrix_nth_length:
  "wf_matrix rs \<Longrightarrow> i < length rs \<Longrightarrow> length (rs ! i) = length (hd rs)"
  by (rule wf_matrix_rows_length) simp_all

lemma ncols_Matrix: "rs \<noteq> [] \<Longrightarrow> ncols (Matrix rs) = Inr (length (hd rs))"
  by (cases rs) (simp_all add: ncols_def)

lemma matrix_wf: "wf_matrix rs \<Longrightarrow> matrix rs = Inr (Matrix rs)"
  by (cases rs) (auto simp: matrix_def wf_matrix_def list_ex_iff list_all_iff)

lemma matrix_Inr_iff: "matrix rs = Inr m \<longleftrightarrow> wf_matrix rs \<and> m = Matrix rs"
  by (cases rs) (auto simp: matrix_def wf_matrix_def list_ex_iff list_all_iff)

section \<open>Indexed access: which indices defer, which are hard errors\<close>

text \<open>
  C4 (as the code has it). On a matrix operand the rules defer exactly for a symbolic
  index (an \<open>Expr\<close>). For the one-index rule, an index that is neither an \<open>int\<close> nor
  an \<open>Expr\<close> is a hard \<open>ValueError\<close>, as are a matrix with more than one column and an
  integer index out of range; otherwise the entry is returned. For the two-index rule, a
  symbolic index in either place defers, and two integer indices give the entry or, out
  of range, a \<open>ValueError\<close>.
\<close>

lemma part_vector_wf:
  assumes "wf_matrix rs"
  shows "rule_part_vector (Matrix rs) idx =
           (case idx of
              ExprArg x \<Rightarrow> Inl Inapplicable
            | OtherArg \<Rightarrow> Inl ValueError
            | IntArg i \<Rightarrow>
                if length (hd rs) \<noteq> 1 then Inl ValueError
                else if \<not> (1 \<le> i \<and> i \<le> int (length rs)) then Inl ValueError
                else Inr (rs ! nat (i - 1) ! 0))"
proof (cases idx)
  case (IntArg i)
  from assms have ne: "rs \<noteq> []" by (simp add: wf_matrix_def)
  show ?thesis
  proof (cases "length (hd rs) = 1 \<and> 1 \<le> i \<and> i \<le> int (length rs)")
    case True
    then have "nat (i - 1) < length rs" by linarith
    then have "length (rs ! nat (i - 1)) = 1"
      using wf_matrix_nth_length [OF assms] True by simp
    then obtain v where v: "rs ! nat (i - 1) = [v]"
      by (cases "rs ! nat (i - 1)") auto
    show ?thesis using True v ne
      by (simp add: rule_part_vector_def IntArg ncols_Matrix)
  next
    case False
    then show ?thesis using ne
      by (auto simp: rule_part_vector_def IntArg ncols_Matrix)
  qed
qed (simp_all add: rule_part_vector_def)

lemma part_matrix_wf:
  assumes "wf_matrix rs"
  shows "rule_part_matrix (Matrix rs) (IntArg i) (IntArg j) =
           (if 1 \<le> i \<and> i \<le> int (length rs) \<and> 1 \<le> j \<and> j \<le> int (length (hd rs))
            then Inr (rs ! nat (i - 1) ! nat (j - 1))
            else Inl ValueError)"
proof (cases "1 \<le> i \<and> i \<le> int (length rs) \<and> 1 \<le> j \<and> j \<le> int (length (hd rs))")
  from assms have ne: "rs \<noteq> []" by (simp add: wf_matrix_def)
  case True
  then have "nat (i - 1) < length rs" by linarith
  then have "length (rs ! nat (i - 1)) = length (hd rs)"
    using wf_matrix_nth_length [OF assms] by simp
  moreover have "nat (j - 1) < length (hd rs)" using True by linarith
  ultimately show ?thesis using True ne
    by (simp add: rule_part_matrix_def ncols_Matrix)
next
  from assms have ne: "rs \<noteq> []" by (simp add: wf_matrix_def)
  case False
  then show ?thesis using ne
    by (auto simp: rule_part_matrix_def ncols_Matrix)
qed

lemma part_matrix_symbolic:
  "rule_part_matrix (Matrix rs) (ExprArg x) idx2 = Inl Inapplicable"
  "rule_part_matrix (Matrix rs) idx1 (ExprArg y) = Inl Inapplicable"
  by (cases idx1; simp add: rule_part_matrix_def)+

theorem part_rules_defer_only_on_symbolic_index:
  assumes "wf_matrix rs"
  shows "rule_part_vector (Matrix rs) idx =
           (case idx of
              ExprArg x \<Rightarrow> Inl Inapplicable
            | OtherArg \<Rightarrow> Inl ValueError
            | IntArg i \<Rightarrow>
                if length (hd rs) \<noteq> 1 then Inl ValueError
                else if \<not> (1 \<le> i \<and> i \<le> int (length rs)) then Inl ValueError
                else Inr (rs ! nat (i - 1) ! 0))
    \<and> rule_part_matrix (Matrix rs) (ExprArg x) idx2 = Inl Inapplicable
    \<and> rule_part_matrix (Matrix rs) idx1 (ExprArg y) = Inl Inapplicable
    \<and> rule_part_matrix (Matrix rs) (IntArg i) (IntArg j) =
           (if 1 \<le> i \<and> i \<le> int (length rs) \<and> 1 \<le> j \<and> j \<le> int (length (hd rs))
            then Inr (rs ! nat (i - 1) ! nat (j - 1))
            else Inl ValueError)"
  using part_vector_wf [OF assms] part_matrix_wf [OF assms] part_matrix_symbolic
  by blast

theorem part_rules_defer_only_on_symbolic_index_witness:
  "wf_matrix [[5::int], [7]]
   \<and> rule_part_vector (Matrix [[5::int], [7]]) OtherArg = Inl ValueError
   \<and> rule_part_matrix (Matrix [[5::int], [7]]) (ExprArg (Symbol ''k'')) OtherArg = Inl Inapplicable
   \<and> rule_part_matrix (Matrix [[5::int], [7]]) OtherArg (ExprArg (Symbol ''k'')) = Inl Inapplicable
   \<and> rule_part_matrix (Matrix [[5::int], [7]]) (IntArg 2) (IntArg 1) = Inr 7"
proof -
  have h: "wf_matrix [[5::int], [7]]" by (simp add: wf_matrix_def)
  have n: "nat (2 - 1) = Suc 0" "nat (1 - 1) = 0" by simp_all
  show ?thesis
    using h part_rules_defer_only_on_symbolic_index
      [OF h, of OtherArg "Symbol ''k''" OtherArg OtherArg "Symbol ''k''" 2 1]
    by (simp add: n)
qed

text \<open>
  C4 as stated fails: a non-integer index that is not symbolic (for instance the
  fraction 1/2) makes the one-index rule raise \<open>ValueError\<close>; it does not defer.
\<close>

theorem part_vector_non_integer_index_counterexample:
  "rule_part_vector (Matrix [[5::int], [7]]) OtherArg \<noteq> Inl Inapplicable"
  by (simp add: rule_part_vector_def)

section \<open>Rows of a matrix, stacked again\<close>

lemma rows_Matrix:
  assumes "\<forall>row\<in>set rs. row \<noteq> []"
  shows "rows (Matrix rs) = Inr (map column_of rs)"
proof -
  have "map (\<lambda>row. vector row) rs = map (\<lambda>row. Inr (column_of row)) rs"
    using assms by (simp add: vector_def column_of_def)
  then have "collect (map (\<lambda>row. vector row) rs) = Inr (map column_of rs)"
    by (simp only: collect_map_Inr)
  then show ?thesis
    by (simp add: rows_def)
qed

lemma all_ncols_columns:
  "\<forall>row\<in>set rs. row \<noteq> [] \<Longrightarrow> all_ncols (Suc 0) (map column_of rs) = Inr True"
proof (induction rs)
  case Nil
  then show ?case by simp
next
  case (Cons r rs)
  then obtain x xs where "r = x # xs" by (cases r) auto
  with Cons show ?case by (simp add: column_of_def ncols_def)
qed

lemma concat_columns: "concat (map (args_of \<circ> column_of) rs) = map (\<lambda>v. [v]) (concat rs)"
  by (induction rs) (simp_all add: column_of_def)

lemma matrix_with_rows_columns:
  assumes "rs \<noteq> []" "\<forall>row\<in>set rs. row \<noteq> []"
  shows "matrix_with_rows (map column_of rs) = Inr (Matrix (map (\<lambda>v. [v]) (concat rs)))"
proof -
  obtain r rs' where rs: "rs = r # rs'" using assms(1) by (cases rs) auto
  then obtain x xs where r: "r = x # xs" using assms(2) by (cases r) auto
  have nc: "ncols (column_of (rs ! 0)) = Inr (Suc 0)"
    by (simp add: rs r column_of_def ncols_def)
  have im: "list_all is_matrix (map column_of rs)"
    by (simp add: list_all_iff column_of_def is_matrix_def)
  show ?thesis
    using assms(1) im
    by (simp add: matrix_with_rows_def nc all_ncols_columns [OF assms(2)] concat_columns)
qed

lemma length_concat_uniform:
  "\<forall>row\<in>set rs. length row = k \<Longrightarrow> length (concat rs) = length rs * k"
  by (induction rs) simp_all

lemma singleton_rows_concat:
  "\<forall>row\<in>set rs. length row = Suc 0 \<Longrightarrow> map (\<lambda>v. [v]) (concat rs) = rs"
proof (induction rs)
  case Nil
  then show ?case by simp
next
  case (Cons r rs)
  then obtain x where "r = [x]" by (cases r) auto
  with Cons show ?case by simp
qed

text \<open>
  C5 (as the code has it). \<open>rows\<close> returns every row as a column vector, so
  \<open>matrix_with_rows(*rows(A))\<close> stacks these columns: for a matrix with m rows and
  k \<ge> 1 columns the result is the (m k) by 1 column of the entries of \<open>A\<close> in row-major
  order. It is \<open>A\<close> again exactly when \<open>A\<close> has one column.
\<close>

theorem matrix_with_rows_of_rows_flattens:
  assumes "wf_matrix rs" and "hd rs \<noteq> []"
  shows "matrix_with_rows_of_rows (Matrix rs) = Inr (Matrix (map (\<lambda>v. [v]) (concat rs)))
       \<and> (matrix_with_rows_of_rows (Matrix rs) = Inr (Matrix rs) \<longleftrightarrow> length (hd rs) = 1)"
proof -
  let ?k = "length (hd rs)"
  have ne: "rs \<noteq> []" using assms(1) by (simp add: wf_matrix_def)
  have len: "\<forall>row\<in>set rs. length row = ?k"
    using wf_matrix_rows_length [OF assms(1)] by blast
  have k: "0 < ?k" using assms(2) by simp
  have rne: "\<forall>row\<in>set rs. row \<noteq> []"
  proof
    fix row assume "row \<in> set rs"
    with len have "length row = ?k" by blast
    with k show "row \<noteq> []" by auto
  qed
  have eq: "matrix_with_rows_of_rows (Matrix rs) = Inr (Matrix (map (\<lambda>v. [v]) (concat rs)))"
    by (simp add: matrix_with_rows_of_rows_def rows_Matrix [OF rne]
        matrix_with_rows_columns [OF ne rne])
  have "map (\<lambda>v. [v]) (concat rs) = rs \<longleftrightarrow> ?k = 1"
  proof
    assume h: "map (\<lambda>v. [v]) (concat rs) = rs"
    have "length (map (\<lambda>v. [v]) (concat rs)) = length rs * ?k"
      using length_concat_uniform [OF len] by simp
    with h have "length rs = length rs * ?k" by simp
    with ne show "?k = 1" by simp
  next
    assume "?k = 1"
    with len have "\<forall>row\<in>set rs. length row = Suc 0" by simp
    then show "map (\<lambda>v. [v]) (concat rs) = rs" by (rule singleton_rows_concat)
  qed
  with eq show ?thesis by simp
qed

theorem matrix_with_rows_of_rows_flattens_witness:
  "wf_matrix [[1::int, 2], [3, 4]] \<and> hd [[1::int, 2], [3, 4]] \<noteq> []
   \<and> matrix_with_rows_of_rows (Matrix [[1::int, 2], [3, 4]]) = Inr (Matrix [[1], [2], [3], [4]])"
proof -
  have h: "wf_matrix [[1::int, 2], [3, 4]]" by (simp add: wf_matrix_def)
  have n: "hd [[1::int, 2], [3, 4]] \<noteq> []" by simp
  show ?thesis
    using h n matrix_with_rows_of_rows_flattens [OF h n] by simp
qed

text \<open>
  C5 as stated fails on the 2 by 2 matrix with rows \<open>[1, 2]\<close> and \<open>[3, 4]\<close>: the
  result is the column \<open>1, 2, 3, 4\<close>.
\<close>

theorem matrix_with_rows_of_rows_counterexample:
  "matrix_with_rows_of_rows (Matrix [[1::int, 2], [3, 4]]) \<noteq> Inr (Matrix [[1, 2], [3, 4]])"
  by (simp add: matrix_with_rows_of_rows_def rows_def vector_def matrix_with_rows_def
      is_matrix_def ncols_def)

section \<open>The determinant is the cofactor expansion along the first column\<close>

lemma square_lengths: "square M \<Longrightarrow> row \<in> set M \<Longrightarrow> length row = length M"
  unfolding square_def list_all_iff by blast

lemma square_nth_length: "square M \<Longrightarrow> i < length M \<Longrightarrow> length (M ! i) = length M"
  by (rule square_lengths) simp_all

lemma square_wf: "square M \<Longrightarrow> wf_matrix M"
  unfolding square_def wf_matrix_def list_all_iff
  by (metis hd_in_set)

lemma square_hd_length: "square M \<Longrightarrow> length (hd M) = length M"
  using square_lengths [of M "hd M"] by (simp add: square_def)

lemma submatrix_remove_row_col: "submatrix rs i = remove_row_col rs i 0"
  by (simp add: submatrix_def remove_row_col_def)

lemma length_remove_row_col:
  "i < length M \<Longrightarrow> length (remove_row_col M i j) = length M - 1"
  by (simp add: remove_row_col_def)

lemma set_remove_row: "set (take i M @ drop (Suc i) M) \<subseteq> set M"
  using set_take_subset [of i M] set_drop_subset [of "Suc i" M] by auto

lemma square_remove_row_col:
  assumes "square M" and "2 \<le> length M" and "i < length M" and "j < length M"
  shows "square (remove_row_col M i j)"
proof -
  have len: "length (remove_row_col M i j) = length M - 1"
    using assms(3) by (rule length_remove_row_col)
  have "length row = length M - 1" if "row \<in> set (remove_row_col M i j)" for row
  proof -
    from that obtain r where r: "r \<in> set (take i M @ drop (Suc i) M)"
      and row: "row = take j r @ drop (Suc j) r"
      by (auto simp: remove_row_col_def)
    have "r \<in> set M" using set_remove_row [of i M] r by (rule subsetD)
    then have "length r = length M" using assms(1) by (rule square_lengths [rotated])
    with row assms(4) show ?thesis by simp
  qed
  moreover have "remove_row_col M i j \<noteq> []"
    using len assms(2) by auto
  ultimately show ?thesis
    unfolding square_def list_all_iff len by blast
qed

lemma fold_accumulate:
  assumes "\<And>i a. i \<in> set xs \<Longrightarrow> step i (Inr a) = Inr (a + f i)"
  shows "fold step xs (Inr a0) = Inr (a0 + sum_list (map f xs))"
  using assms
proof (induction xs arbitrary: a0)
  case Nil
  then show ?case by simp
next
  case (Cons x xs)
  have "fold step (x # xs) (Inr a0) = fold step xs (Inr (a0 + f x))"
    using Cons.prems [of x a0] by simp
  also have "\<dots> = Inr (a0 + f x + sum_list (map f xs))"
    using Cons.prems by (intro Cons.IH) simp
  finally show ?case by (simp add: add.assoc)
qed

lemma expand_cofactor_expansion:
  "square M \<Longrightarrow> expand M = Inr (cofactor_expansion M)"
proof (induction "length M" arbitrary: M rule: less_induct)
  case less
  show ?case
  proof (cases "length M = 1")
    case True
    then have "length (M ! 0) = 1"
      using square_nth_length [OF less.prems, of 0] by simp
    with True show ?thesis
      by (simp add: expand.simps [of M] cofactor_expansion.simps [of M])
  next
    case False
    moreover have "length M \<noteq> 0" using less.prems by (simp add: square_def)
    ultimately have two: "2 \<le> length M" by arith
    let ?f = "\<lambda>i. (- 1) ^ i * (M ! i ! 0) * cofactor_expansion (remove_row_col M i 0)"
    let ?step = "\<lambda>i acc.
                case acc of
                  Inl e \<Rightarrow> Inl e
                | Inr a \<Rightarrow>
                    (case M ! i of
                       [] \<Rightarrow> Inl IndexError
                     | x # _ \<Rightarrow>
                         (case expand (submatrix M i) of
                            Inl e \<Rightarrow> Inl e
                          | Inr d \<Rightarrow> Inr (a + (- 1) ^ i * x * d)))"
    have step: "?step i (Inr a) = Inr (a + ?f i)" if "i \<in> set [0..<length M]" for i a
    proof -
      from that have i: "i < length M" by simp
      have pos: "0 < length M" using two by arith
      have sq: "square (remove_row_col M i 0)"
        using less.prems two i pos by (rule square_remove_row_col)
      have "length (remove_row_col M i 0) < length M"
        using length_remove_row_col [OF i, of 0] two by simp
      then have ex: "expand (submatrix M i) = Inr (cofactor_expansion (remove_row_col M i 0))"
        using less.hyps sq by (simp add: submatrix_remove_row_col)
      have "length (M ! i) = length M" using less.prems i by (rule square_nth_length)
      with two obtain x xs where x: "M ! i = x # xs" by (cases "M ! i") auto
      then have "M ! i ! 0 = x" by simp
      with x ex show ?thesis by simp
    qed
    have "expand M = fold ?step [0..<length M] (Inr 0)"
      using False by (simp add: expand.simps [of M])
    also have "\<dots> = Inr (0 + sum_list (map ?f [0..<length M]))"
      using step by (rule fold_accumulate)
    also have "sum_list (map ?f [0..<length M]) = (\<Sum>i<length M. ?f i)"
      by (simp add: interv_sum_list_conv_sum_set_nat atLeast0LessThan)
    also have "(\<Sum>i<length M. ?f i) = cofactor_expansion M"
      using False by (simp add: cofactor_expansion.simps [of M])
    finally show ?thesis by simp
  qed
qed

text \<open>
  C2. On a square matrix \<open>det\<close> returns the cofactor expansion along the first column:
  the single entry for a 1 by 1 matrix, otherwise the alternating sum over the rows
  \<open>i\<close> of \<open>M[i][0]\<close> times the determinant of \<open>M\<close> without row \<open>i\<close> and column 0.
\<close>

theorem det_is_first_column_cofactor_expansion:
  assumes "square M"
  shows "det (Matrix M) = Inr (cofactor_expansion M)
       \<and> cofactor_expansion M =
           (if length M = 1 then M ! 0 ! 0
            else (\<Sum>i<length M. (- 1) ^ i * (M ! i ! 0) * cofactor_expansion (remove_row_col M i 0)))"
proof -
  have ne: "M \<noteq> []" using assms by (simp add: square_def)
  have "det (Matrix M) = expand M"
    using square_hd_length [OF assms] by (simp add: det_def ncols_Matrix [OF ne])
  then show ?thesis
    using expand_cofactor_expansion [OF assms] cofactor_expansion.simps [of M] by simp
qed

theorem det_is_first_column_cofactor_expansion_witness:
  "square [[1::int, 2], [3, 4]] \<and> det (Matrix [[1::int, 2], [3, 4]]) = Inr (- 2)"
proof -
  have h: "square [[1::int, 2], [3, 4]]" by (simp add: square_def)
  have c: "cofactor_expansion [[1::int, 2], [3, 4]] = - 2" by code_simp
  show ?thesis
    using h det_is_first_column_cofactor_expansion [OF h] by (simp only: c simp_thms)
qed

section \<open>The identity matrix and the power with exponent 0\<close>

lemma wf_identity_rows: "0 < n \<Longrightarrow> wf_matrix (identity_rows n)"
  by (cases n) (auto simp: wf_matrix_def identity_rows_def list_all_iff hd_map simp del: upt_Suc)

lemma identity_matrix_rows:
  "0 < n \<Longrightarrow> identity_matrix (int n) = Inr (Matrix (identity_rows n))"
  using matrix_wf [OF wf_identity_rows, of n]
  by (simp add: identity_matrix_def identity_rows_def)

lemma nrows_Matrix: "nrows (Matrix rs) = Inr (length rs)"
  by (simp add: nrows_def)

lemma is_matrix_Matrix: "is_matrix (Matrix rs)"
  by (simp add: is_matrix_def)

text \<open>
  C10. For a square n by n matrix the power rule with exponent 0 returns
  \<open>identity_matrix(n)\<close>: the loop condition \<open>1 <= 0\<close> fails at once, so the
  accumulator, the identity matrix, is returned without any multiplication.
\<close>

theorem power_zero_is_identity:
  fixes A :: "('a::field) list list"
  assumes "square A"
  shows "reduce_matrix_inverse (Matrix A) (IntArg 0) = Some (identity_matrix (int (length A)))
       \<and> (identity_matrix (int (length A)) :: error + 'a expr) =
           Inr (Matrix (map (\<lambda>i. map (\<lambda>j. if i = j then 1 else 0) [0..<length A]) [0..<length A]))
       \<and> pow_loop 1 0 (Matrix (identity_rows (length A))) (Matrix A)
           = Some (Inr (Matrix (identity_rows (length A))))"
proof -
  have ne: "A \<noteq> []" using assms by (simp add: square_def)
  then have pos: "0 < length A" by simp
  have nc: "ncols (Matrix A) = Inr (length A)"
    using square_hd_length [OF assms] by (simp add: ncols_Matrix [OF ne])
  have loop: "pow_loop 1 0 (Matrix (identity_rows (length A))) (Matrix A)
           = Some (Inr (Matrix (identity_rows (length A))))"
    by (subst pow_loop.simps) simp
  have "reduce_matrix_inverse (Matrix A) (IntArg 0) = Some (Inr (Matrix (identity_rows (length A))))"
    by (simp add: reduce_matrix_inverse_def is_matrix_Matrix nrows_Matrix nc
        identity_matrix_rows [OF pos] loop)
  then show ?thesis
    using identity_matrix_rows [OF pos, where ?'a = 'a] loop
    by (simp add: identity_rows_def)
qed

theorem power_zero_is_identity_witness:
  "square [[2::rat, 3], [5, 7]]
   \<and> reduce_matrix_inverse (Matrix [[2::rat, 3], [5, 7]]) (IntArg 0) = Some (Inr (Matrix [[1, 0], [0, 1]]))"
proof -
  have h: "square [[2::rat, 3], [5, 7]]" by (simp add: square_def)
  have i: "identity_matrix (int (length [[2::rat, 3], [5, 7]])) = Inr (Matrix [[1, 0], [0, 1::rat]])"
    by code_simp
  show ?thesis
    using h power_zero_is_identity [OF h] by (simp only: i simp_thms)
qed

section \<open>The addition rule combines the first two matrix operands\<close>

lemma inner_scan_skip:
  "\<forall>k\<in>set us. \<not> is_matrix (args ! k) \<Longrightarrow> inner_scan args i (us @ js) = inner_scan args i js"
  by (induction us) simp_all

lemma inner_scan_none:
  "\<forall>k\<in>set js. \<not> is_matrix (args ! k) \<Longrightarrow> inner_scan args i js = None"
  by (induction js) simp_all

lemma outer_scan_skip:
  "\<forall>k\<in>set us. \<not> is_matrix (args ! k) \<Longrightarrow> outer_scan args (us @ is) = outer_scan args is"
  by (induction us) simp_all

lemma outer_scan_defers:
  assumes "\<forall>k\<in>set is. is_matrix (args ! k) \<longrightarrow>
             (\<forall>j\<in>set [k + 1..<length args]. \<not> is_matrix (args ! j))"
  shows "outer_scan args is = Inl Inapplicable"
  using assms
proof (induction "is")
  case Nil
  then show ?case by simp
next
  case (Cons k ks)
  show ?case
  proof (cases "is_matrix (args ! k)")
    case True
    with Cons.prems have "\<forall>j\<in>set [k + 1..<length args]. \<not> is_matrix (args ! j)" by simp
    then have "inner_scan args k [k + 1..<length args] = None" by (rule inner_scan_none)
    with True Cons show ?thesis by simp
  next
    case False
    with Cons show ?thesis by simp
  qed
qed

lemma upt_split_at:
  "[a..<b] = us @ y # vs \<Longrightarrow> us = [a..<y] \<and> vs = [Suc y..<b] \<and> a \<le> y \<and> y < b"
proof (induction us arbitrary: a)
  case Nil
  then show ?case by (auto simp: upt_eq_Cons_conv)
next
  case (Cons u us)
  from Cons.prems have a: "a < b" "u = a" "[Suc a..<b] = us @ y # vs"
    by (auto simp: upt_eq_Cons_conv)
  from Cons.IH [OF a(3)] have "us = [Suc a..<y]" "vs = [Suc y..<b]" "Suc a \<le> y" "y < b"
    by simp_all
  then show ?case using a by (simp add: upt_conv_Cons)
qed

lemma upt_split:
  assumes "a \<le> y" and "y < b"
  shows "[a..<b] = [a..<y] @ y # [Suc y..<b]"
proof -
  have "[a..<y + (b - y)] = [a..<y] @ [y..<y + (b - y)]"
    using assms(1) by (rule upt_add_eq_append)
  moreover have "y + (b - y) = b" using assms(2) by simp
  ultimately have "[a..<b] = [a..<y] @ [y..<b]" by simp
  then show ?thesis using assms(2) by (simp add: upt_conv_Cons)
qed

lemma filter_upt_Cons:
  assumes "filter P [a..<b] = y # ys"
  shows "a \<le> y \<and> y < b \<and> P y \<and> (\<forall>k\<in>set [a..<y]. \<not> P k) \<and> ys = filter P [Suc y..<b]"
proof -
  from assms obtain us vs where s: "[a..<b] = us @ y # vs"
    and u: "\<forall>k\<in>set us. \<not> P k" and y: "P y" and v: "ys = filter P vs"
    by (auto simp: filter_eq_Cons_iff)
  from upt_split_at [OF s] u y v show ?thesis by simp
qed

lemma valid_operand_ncols:
  "valid_operand e \<Longrightarrow> is_matrix e \<Longrightarrow> ncols e = Inr (length (hd (args_of e)))"
  by (cases e) (simp_all add: valid_operand_def is_matrix_def ncols_Matrix wf_matrix_def)

lemma is_matrix_nrows: "is_matrix e \<Longrightarrow> nrows e = Inr (length (args_of e))"
  by (cases e) (simp_all add: is_matrix_def nrows_def)

text \<open>
  C6. Among the operands of a sum, let \<open>i\<close> and \<open>j\<close> be the positions of the first and
  the second matrix operand. If there are fewer than two matrix operands the rule
  defers. Otherwise, when the row counts or the column counts of the two differ, the
  rule raises \<open>ValueError\<close>; when they agree, the operand at \<open>i\<close> is replaced by the
  element-wise sum, the operand at \<open>j\<close> is removed, and every other operand stays
  where it was.
\<close>

theorem rule_matrix_addition_first_pair:
  fixes args :: "('a::plus) expr list"
  assumes "list_all valid_operand args"
  shows "rule_matrix_addition args =
     (case matrix_positions args of
        i # j # rest \<Rightarrow>
          if length (args_of (args ! i)) = length (args_of (args ! j))
             \<and> length (hd (args_of (args ! i))) = length (hd (args_of (args ! j)))
          then Inr (Plus (take i args
                 @ [Matrix (map2 (\<lambda>rowi rowj. map2 (\<lambda>ci cj. ci + cj) rowi rowj)
                              (args_of (args ! i)) (args_of (args ! j)))]
                 @ drop (i + 1) (take j args)
                 @ drop (j + 1) args))
          else Inl ValueError
      | _ \<Rightarrow> Inl Inapplicable)"
proof -
  let ?P = "\<lambda>k. is_matrix (args ! k)"
  let ?n = "length args"
  show ?thesis
  proof (cases "matrix_positions args")
    case Nil
    then have "\<forall>k\<in>set [0..<?n]. \<not> ?P k"
      by (simp add: matrix_positions_def filter_empty_conv)
    then have "\<forall>k\<in>set [0..<?n - 1]. \<not> ?P k" by simp
    then have "outer_scan args [0..<?n - 1] = Inl Inapplicable"
      by (intro outer_scan_defers) blast
    with Nil show ?thesis by (simp add: rule_matrix_addition_def)
  next
    case (Cons i ms)
    from filter_upt_Cons [OF Cons [unfolded matrix_positions_def]]
    have i: "i < ?n" "?P i" and before: "\<forall>k\<in>set [0..<i]. \<not> ?P k"
      and ms: "ms = filter ?P [Suc i..<?n]" by simp_all
    show ?thesis
    proof (cases ms)
      case Nil
      with ms have "filter ?P [Suc i..<?n] = []" by simp
      then have after: "\<forall>k\<in>set [Suc i..<?n]. \<not> ?P k"
        by (simp add: filter_empty_conv)
      have "outer_scan args [0..<?n - 1] = Inl Inapplicable"
      proof (rule outer_scan_defers, intro ballI impI)
        fix k j
        assume k: "k \<in> set [0..<?n - 1]" and m: "?P k" and j: "j \<in> set [k + 1..<?n]"
        from before m have "\<not> k < i" by auto
        moreover from after m k have "\<not> i < k" by auto
        ultimately have "k = i" by simp
        with j after show "\<not> ?P j" by simp
      qed
      with Cons Nil show ?thesis by (simp add: rule_matrix_addition_def)
    next
      case (Cons j rest)
      from filter_upt_Cons [OF ms [symmetric, unfolded Cons]]
      have j: "Suc i \<le> j" "j < ?n" "?P j" and between: "\<forall>k\<in>set [Suc i..<j]. \<not> ?P k"
        by simp_all
      have vi: "valid_operand (args ! i)" and vj: "valid_operand (args ! j)"
        using assms i(1) j(2) by (simp_all add: list_all_length)
      have "i < ?n - 1" using j by arith
      then have outer: "[0..<?n - 1] = [0..<i] @ i # [Suc i..<?n - 1]"
        by (intro upt_split) simp
      have inner: "[Suc i..<?n] = [Suc i..<j] @ j # [Suc j..<?n]"
        using j(1) j(2) by (rule upt_split)
      have "outer_scan args [0..<?n - 1] = outer_scan args (i # [Suc i..<?n - 1])"
        unfolding outer using before by (rule outer_scan_skip)
      also have "\<dots> = pair_sum args i j"
      proof -
        have "inner_scan args i [Suc i..<?n] = Some (pair_sum args i j)"
          using j(3) inner_scan_skip [OF between, of i "j # [Suc j..<?n]"]
          by (simp add: inner [symmetric])
        then show ?thesis using i(2) by simp
      qed
      finally have "rule_matrix_addition args = pair_sum args i j"
        by (simp add: rule_matrix_addition_def)
      moreover have "pair_sum args i j =
          (if length (args_of (args ! i)) = length (args_of (args ! j))
             \<and> length (hd (args_of (args ! i))) = length (hd (args_of (args ! j)))
           then Inr (Plus (take i args
                 @ [Matrix (map2 (\<lambda>rowi rowj. map2 (\<lambda>ci cj. ci + cj) rowi rowj)
                              (args_of (args ! i)) (args_of (args ! j)))]
                 @ drop (i + 1) (take j args)
                 @ drop (j + 1) args))
           else Inl ValueError)"
        by (simp add: pair_sum_def is_matrix_nrows [OF i(2)] is_matrix_nrows [OF j(3)]
            valid_operand_ncols [OF vi i(2)] valid_operand_ncols [OF vj j(3)])
      ultimately show ?thesis
        using \<open>matrix_positions args = i # ms\<close> Cons by simp
    qed
  qed
qed

theorem rule_matrix_addition_first_pair_witness:
  "list_all valid_operand [Symbol ''x'', Matrix [[1, 2::int]], Scalar 3, Matrix [[10, 20]], Matrix [[5, 5]]]
   \<and> rule_matrix_addition [Symbol ''x'', Matrix [[1, 2::int]], Scalar 3, Matrix [[10, 20]], Matrix [[5, 5]]]
       = Inr (Plus [Symbol ''x'', Matrix [[11, 22]], Scalar 3, Matrix [[5, 5]]])"
proof -
  let ?args = "[Symbol ''x'', Matrix [[1, 2::int]], Scalar 3, Matrix [[10, 20]], Matrix [[5, 5]]]"
  have h: "list_all valid_operand ?args"
    by (simp add: valid_operand_def wf_matrix_def)
  have p: "matrix_positions ?args = [1, 3, 4]"
    by code_simp
  show ?thesis
    using h rule_matrix_addition_first_pair [OF h] by (simp add: p)
qed

section \<open>The adjugate of a 1 by 1 matrix\<close>

lemma delete_at_singleton: "delete_at 0 [x] = []"
  by (simp add: delete_at_def)

text \<open>
  C1 at a 1 by 1 matrix. The only cofactor of \<open>[[x]]\<close> is built from an empty list of
  rows, which the constructor \<open>matrix\<close> refuses: \<open>adj\<close> raises \<open>ValueError\<close>, although
  \<open>det\<close> returns \<open>x\<close> and \<open>identity_matrix(1)\<close> exists. So \<open>A @ adj(A)\<close> has no
  value for a 1 by 1 matrix \<open>A\<close>, while \<open>det(A) * identity_matrix(1)\<close> is \<open>[[x]]\<close>.
\<close>

theorem adj_one_by_one_raises:
  "adj (Matrix [[x]]) = Inl ValueError
   \<and> det (Matrix [[x]]) = Inr x
   \<and> (identity_matrix 1 :: error + 'a::comm_ring_1 expr) = Inr (Matrix [[1]])"
  by (simp add: adj_def cofactor_C_def delete_at_singleton matrix_def det_def ncols_def
      expand.simps [of "[[x]]"] identity_matrix_def)

text \<open>
  C3 at a 1 by 1 matrix. The inverse of \<open>[[2]]\<close> exists (its determinant is 2), but the
  power rule with exponent \<open>-1\<close> calls \<open>adj\<close> on the 1 by 1 matrix \<open>P = [[2]]\<close> and
  ends with the \<open>ValueError\<close> of \<open>adj\<close>, before any division.
\<close>

theorem inverse_one_by_one_raises:
  "reduce_matrix_inverse (Matrix [[2::rat]]) (IntArg (- 1)) = Some (Inl ValueError)"
  by code_simp

section \<open>Row reduction keeps the shape of the matrix\<close>

lemma shaped_nth: "shaped rws cols m \<Longrightarrow> i < rws \<Longrightarrow> length (m ! i) = cols"
  by (simp add: shaped_def)

lemma shaped_update:
  "shaped rws cols m \<Longrightarrow> length r = cols \<Longrightarrow> shaped rws cols (m[i := r])"
  unfolding shaped_def using set_update_subset_insert [of m i r] by auto

lemma shaped_swap_rows:
  "shaped rws cols m \<Longrightarrow> i < rws \<Longrightarrow> j < rws \<Longrightarrow> shaped rws cols (swap_rows i j m)"
  unfolding swap_rows_def by (intro shaped_update) (simp_all add: shaped_nth)

lemma shaped_scale_row: "shaped rws cols m \<Longrightarrow> shaped rws cols (scale_row cols i c m)"
  unfolding scale_row_def by (intro shaped_update) simp_all

lemma shaped_replace_row: "shaped rws cols m \<Longrightarrow> shaped rws cols (replace_row cols i j c m)"
  unfolding replace_row_def by (intro shaped_update) simp_all

lemma shaped_eliminate:
  "shaped rws cols (fst s) \<Longrightarrow> shaped rws cols (fst (eliminate cols i j ks s))"
  unfolding eliminate_def
  by (induction ks arbitrary: s) (simp_all add: replace_def shaped_replace_row)

lemma shaped_normalize_pivot:
  "shaped rws cols (fst s) \<Longrightarrow> shaped rws cols (fst (normalize_pivot cols i j s))"
  by (simp add: normalize_pivot_def scale_def shaped_scale_row)

lemma shaped_find_pivot:
  assumes "shaped rws cols (fst s)" and "i < rws" and "last_nz < int rws"
  shows "shaped rws cols (fst (find_pivot i j last_nz s))"
proof (cases "find (\<lambda>k. fst s ! k ! j \<noteq> 0) [i + 1..<nat (last_nz + 1)]")
  case None
  with assms(1) show ?thesis by (simp add: find_pivot_def)
next
  case (Some k)
  then have "k \<in> set [i + 1..<nat (last_nz + 1)]"
    by (auto simp: find_Some_iff in_set_conv_nth)
  then have "k < nat (last_nz + 1)" by simp
  with assms(3) have "k < rws" by linarith
  with Some assms(1,2) show ?thesis
    by (simp add: find_pivot_def swap_def shaped_swap_rows)
qed

lemma shaped_push_zero_row:
  assumes "shaped rws cols (fst s)" and "i < rws" and "last_nz < int rws"
    and "push_zero_row cols i last_nz s = (last_nz1, s1)"
  shows "shaped rws cols (fst s1) \<and> last_nz1 < int rws"
proof (cases "is_zero cols (fst s) i")
  case True
  have "nat last_nz < rws" using assms(2,3) by linarith
  with True assms show ?thesis
    by (auto simp: push_zero_row_def swap_def shaped_swap_rows)
next
  case False
  with assms show ?thesis by (auto simp: push_zero_row_def)
qed

lemma forward_stop:
  "\<not> (i < rws \<and> int j < to_col) \<Longrightarrow> forward rws cols to_col i j last_nz s = (last_nz, s)"
  by (subst forward.simps) auto

lemma forward_break:
  "is_zero cols (fst s) i \<Longrightarrow> int i \<ge> last_nz \<Longrightarrow>
   forward rws cols to_col i j last_nz s = (last_nz, s)"
  by (subst forward.simps) auto

lemma forward_step:
  assumes "i < rws" and "int j < to_col"
    and "\<not> (is_zero cols (fst s) i \<and> int i \<ge> last_nz)"
    and "push_zero_row cols i last_nz s = (last_nz1, s1)"
    and "s2 = find_pivot i j last_nz1 s1"
  shows "forward rws cols to_col i j last_nz s =
     (if fst s2 ! i ! j = 0 then forward rws cols to_col i (j + 1) last_nz1 s2
      else forward rws cols to_col (i + 1) (j + 1) last_nz1
             (eliminate cols i j [i + 1..<nat (last_nz1 + 1)] (normalize_pivot cols i j s2)))"
  using assms by (subst forward.simps) auto

lemma shaped_forward:
  assumes "shaped rws cols (fst s)" and "last_nz < int rws"
  shows "shaped rws cols (fst (snd (forward rws cols to_col i j last_nz s)))"
  using assms
proof (induction rws cols to_col i j last_nz s rule: forward.induct)
  case (1 rws cols to_col i j last_nz s)
  show ?case
  proof (cases "i < rws \<and> int j < to_col")
    case False
    with "1.prems" show ?thesis by (simp add: forward_stop)
  next
    case loop: True
    show ?thesis
    proof (cases "is_zero cols (fst s) i \<and> int i \<ge> last_nz")
      case True
      with "1.prems" show ?thesis by (simp add: forward_break)
    next
      case False
      obtain last_nz1 s1 where p: "push_zero_row cols i last_nz s = (last_nz1, s1)"
        by (cases "push_zero_row cols i last_nz s")
      let ?s2 = "find_pivot i j last_nz1 s1"
      from loop have i: "i < rws" and j: "int j < to_col" by simp_all
      note step = forward_step [OF i j False p refl]
      from shaped_push_zero_row [OF "1.prems"(1) i "1.prems"(2) p]
      have s1: "shaped rws cols (fst s1)" and l1: "last_nz1 < int rws" by simp_all
      have s2: "shaped rws cols (fst ?s2)"
        using s1 i l1 by (rule shaped_find_pivot)
      show ?thesis
      proof (cases "fst ?s2 ! i ! j = 0")
        case True
        have "shaped rws cols (fst (snd (forward rws cols to_col i (j + 1) last_nz1 ?s2)))"
          by (rule "1.IH"(1) [OF loop False p [symmetric] True s2 l1])
        with True show ?thesis by (simp add: step)
      next
        case nz: False
        let ?s4 = "eliminate cols i j [i + 1..<nat (last_nz1 + 1)] (normalize_pivot cols i j ?s2)"
        have s4: "shaped rws cols (fst ?s4)"
          by (intro shaped_eliminate shaped_normalize_pivot s2)
        have "shaped rws cols (fst (snd (forward rws cols to_col (i + 1) (j + 1) last_nz1 ?s4)))"
          by (rule "1.IH"(2) [OF loop False p [symmetric] nz s4 l1])
        with nz show ?thesis by (simp add: step)
      qed
    qed
  qed
qed

lemma last_nz_loop_le: "last_nz_loop cols m l \<le> l"
proof (induction cols m l rule: last_nz_loop.induct)
  case (1 cols m l)
  show ?case
  proof (cases "l \<ge> 0 \<and> is_zero cols m (nat l)")
    case True
    with "1.IH" have "last_nz_loop cols m (l - 1) \<le> l - 1" by simp
    with True show ?thesis by (simp add: last_nz_loop.simps [of cols m l])
  next
    case False
    then show ?thesis by (auto simp: last_nz_loop.simps [of cols m l])
  qed
qed

lemma shaped_clear_above:
  "shaped rws cols (fst s) \<Longrightarrow> shaped rws cols (fst (clear_above cols to_col i s))"
  by (auto simp: clear_above_def shaped_eliminate split: option.splits)

lemma shaped_backward:
  "shaped rws cols (fst s) \<Longrightarrow> shaped rws cols (fst (backward cols to_col last_nz s))"
proof -
  have "shaped rws cols (fst s) \<Longrightarrow>
        shaped rws cols (fst (fold (\<lambda>i s. clear_above cols to_col i s) ks s))" for ks
    by (induction ks arbitrary: s) (simp_all add: shaped_clear_above)
  then show "shaped rws cols (fst s) \<Longrightarrow> ?thesis"
    by (simp add: backward_def)
qed

lemma wf_matrix_shaped: "wf_matrix rs \<Longrightarrow> shaped (length rs) (length (hd rs)) rs"
  unfolding shaped_def using wf_matrix_rows_length by blast

lemma shaped_wf_matrix: "shaped rws cols m \<Longrightarrow> 0 < rws \<Longrightarrow> wf_matrix m"
  unfolding shaped_def wf_matrix_def list_all_iff
  by (metis hd_in_set length_greater_0_conv)

lemma shaped_reduced_rows:
  assumes "wf_matrix rs"
  shows "shaped (length rs) (length (hd rs)) (fst (reduced_rows rref rs))"
proof -
  let ?l = "last_nz_loop (length (hd rs)) rs (int (length rs) - 1)"
  have l: "?l < int (length rs)"
    using last_nz_loop_le [of "length (hd rs)" rs "int (length rs) - 1"] by simp
  obtain last_nz s where f: "forward (length rs) (length (hd rs)) (int (length (hd rs))) 0 0
             ?l (rs, []) = (last_nz, s)"
    by (cases "forward (length rs) (length (hd rs)) (int (length (hd rs))) 0 0 ?l (rs, [])")
  have "shaped (length rs) (length (hd rs)) (fst s)"
    using shaped_forward [of "length rs" "length (hd rs)" "(rs, [])" ?l "int (length (hd rs))" 0 0]
      wf_matrix_shaped [OF assms] l by (simp add: f)
  then show ?thesis
    by (simp add: reduced_rows_def f shaped_backward)
qed

lemma row_reduce_default:
  assumes "wf_matrix rs"
  shows "row_reduce (Matrix rs) rref steps_out None =
     Inr (Matrix (fst (reduced_rows rref rs)),
          map_option (\<lambda>out. out @ snd (reduced_rows rref rs)) steps_out)"
proof -
  from assms obtain r0 rs' where rs: "rs = r0 # rs'"
    by (cases rs) (auto simp: wf_matrix_def)
  let ?l = "last_nz_loop (length r0) rs (int (length rs) - 1)"
  obtain last_nz s where f: "forward (length rs) (length r0) (int (length r0)) 0 0
             ?l (rs, []) = (last_nz, s)"
    by (cases "forward (length rs) (length r0) (int (length r0)) 0 0 ?l (rs, [])")
  obtain mat lines where st:
    "(if rref then backward (length r0) (int (length r0)) last_nz s else s) = (mat, lines)"
    by (cases "if rref then backward (length r0) (int (length r0)) last_nz s else s")
  have red: "reduced_rows rref rs = (mat, lines)"
    using f st by (cases rref; simp add: reduced_rows_def rs)
  have "wf_matrix (fst (reduced_rows rref rs))"
    using shaped_reduced_rows [OF assms] by (rule shaped_wf_matrix) (simp add: rs)
  then have m: "matrix mat = Inr (Matrix mat)"
    unfolding red by (simp add: matrix_wf)
  have "row_reduce (Matrix rs) rref steps_out None =
        Inr (Matrix mat, map_option (\<lambda>out. out @ lines) steps_out)"
    using f st m by (cases rref; simp add: row_reduce_def rs)
  then show ?thesis by (simp add: red)
qed

section \<open>Row reduction writes only to its private copy\<close>

lemma private_copy_mat_nth:
  "private_copy st0 rws cols s \<Longrightarrow> i < rws \<Longrightarrow>
   length st0 \<le> mat s ! i \<and> mat s ! i < length st0 + rws"
  unfolding private_copy_def by (metis nth_mem)

lemma set_swap_subset:
  assumes "i < length xs" and "j < length xs"
  shows "set (xs[i := xs ! j, j := xs ! i]) \<subseteq> set xs"
proof -
  have "set (xs[i := xs ! j]) \<subseteq> insert (xs ! j) (set xs)"
    by (rule set_update_subset_insert)
  moreover have "xs ! j \<in> set xs" using assms(2) by simp
  ultimately have a: "set (xs[i := xs ! j]) \<subseteq> set xs" by blast
  have "set (xs[i := xs ! j, j := xs ! i]) \<subseteq> insert (xs ! i) (set (xs[i := xs ! j]))"
    by (rule set_update_subset_insert)
  moreover have "xs ! i \<in> set xs" using assms(1) by simp
  ultimately show ?thesis using a by blast
qed

lemma private_copy_swap_h:
  assumes "private_copy st0 rws cols s" and "i < rws" and "j < rws"
  shows "private_copy st0 rws cols (swap_h i j s)"
proof -
  have len: "length (mat s) = rws" using assms(1) by (simp add: private_copy_def)
  have "set ((mat s)[i := mat s ! j, j := mat s ! i]) \<subseteq> set (mat s)"
    using assms(2,3) by (intro set_swap_subset) (simp_all add: len)
  with assms(1) show ?thesis
    unfolding private_copy_def swap_h_def by auto
qed

lemma private_copy_write:
  assumes "private_copy st0 rws cols s" and "i < rws" and "length row = cols"
  shows "private_copy st0 rws cols (s\<lparr>store := (store s)[mat s ! i := row], lines := l\<rparr>)"
proof -
  from private_copy_mat_nth [OF assms(1,2)]
  have a: "length st0 \<le> mat s ! i" "mat s ! i < length st0 + rws" by simp_all
  have "take (length st0) ((store s)[mat s ! i := row]) = take (length st0) (store s)"
    using a(1) by (rule take_update_cancel)
  moreover have "length (((store s)[mat s ! i := row]) ! b) = cols"
    if "length st0 \<le> b" "b < length st0 + rws" for b
    using that assms(1,3) unfolding private_copy_def
    by (cases "b = mat s ! i") simp_all
  ultimately show ?thesis
    using assms(1) unfolding private_copy_def by simp
qed

lemma private_copy_scale_h:
  "private_copy st0 rws cols s \<Longrightarrow> i < rws \<Longrightarrow> private_copy st0 rws cols (scale_h cols i c s)"
  unfolding scale_h_def by (rule private_copy_write) simp_all

lemma private_copy_replace_h:
  "private_copy st0 rws cols s \<Longrightarrow> i < rws \<Longrightarrow>
   private_copy st0 rws cols (replace_h cols i j c s)"
  unfolding replace_h_def by (rule private_copy_write) simp_all

lemma private_copy_eliminate_h:
  "private_copy st0 rws cols s \<Longrightarrow> \<forall>k\<in>set ks. k < rws \<Longrightarrow>
   private_copy st0 rws cols (eliminate_h cols i j ks s)"
  unfolding eliminate_h_def
  by (induction ks arbitrary: s) (simp_all add: private_copy_replace_h)

lemma private_copy_normalize_pivot_h:
  "private_copy st0 rws cols s \<Longrightarrow> i < rws \<Longrightarrow>
   private_copy st0 rws cols (normalize_pivot_h cols i j s)"
  by (simp add: normalize_pivot_h_def private_copy_scale_h)

lemma private_copy_find_pivot_h:
  assumes "private_copy st0 rws cols s" and "i < rws" and "last_nz < int rws"
  shows "private_copy st0 rws cols (find_pivot_h i j last_nz s)"
proof (cases "find (\<lambda>k. entry s k j \<noteq> 0) [i + 1..<nat (last_nz + 1)]")
  case None
  with assms(1) show ?thesis by (simp add: find_pivot_h_def)
next
  case (Some k)
  then have "k \<in> set [i + 1..<nat (last_nz + 1)]"
    by (auto simp: find_Some_iff in_set_conv_nth)
  then have "k < nat (last_nz + 1)" by simp
  with assms(3) have "k < rws" by linarith
  with Some assms(1,2) show ?thesis
    by (simp add: find_pivot_h_def private_copy_swap_h)
qed

lemma private_copy_push_zero_row_h:
  assumes "private_copy st0 rws cols s" and "i < rws" and "last_nz < int rws"
    and "push_zero_row_h cols i last_nz s = (last_nz1, s1)"
  shows "private_copy st0 rws cols s1 \<and> last_nz1 < int rws"
proof (cases "is_zero_h cols s i")
  case True
  have "nat last_nz < rws" using assms(2,3) by linarith
  with True assms show ?thesis
    by (auto simp: push_zero_row_h_def private_copy_swap_h)
next
  case False
  with assms show ?thesis by (auto simp: push_zero_row_h_def)
qed

lemma forward_h_stop:
  "\<not> (i < rws \<and> int j < to_col) \<Longrightarrow> forward_h rws cols to_col i j last_nz s = (last_nz, s)"
  by (subst forward_h.simps) auto

lemma forward_h_break:
  "is_zero_h cols s i \<Longrightarrow> int i \<ge> last_nz \<Longrightarrow>
   forward_h rws cols to_col i j last_nz s = (last_nz, s)"
  by (subst forward_h.simps) auto

lemma forward_h_step:
  assumes "i < rws" and "int j < to_col"
    and "\<not> (is_zero_h cols s i \<and> int i \<ge> last_nz)"
    and "push_zero_row_h cols i last_nz s = (last_nz1, s1)"
    and "s2 = find_pivot_h i j last_nz1 s1"
  shows "forward_h rws cols to_col i j last_nz s =
     (if entry s2 i j = 0 then forward_h rws cols to_col i (j + 1) last_nz1 s2
      else forward_h rws cols to_col (i + 1) (j + 1) last_nz1
             (eliminate_h cols i j [i + 1..<nat (last_nz1 + 1)] (normalize_pivot_h cols i j s2)))"
  using assms by (subst forward_h.simps) auto

lemma private_copy_forward_h:
  assumes "private_copy st0 rws cols s" and "last_nz < int rws"
  shows "private_copy st0 rws cols (snd (forward_h rws cols to_col i j last_nz s))
       \<and> fst (forward_h rws cols to_col i j last_nz s) < int rws"
  using assms
proof (induction rws cols to_col i j last_nz s rule: forward_h.induct)
  case (1 rws cols to_col i j last_nz s)
  show ?case
  proof (cases "i < rws \<and> int j < to_col")
    case False
    with "1.prems" show ?thesis by (simp add: forward_h_stop)
  next
    case loop: True
    show ?thesis
    proof (cases "is_zero_h cols s i \<and> int i \<ge> last_nz")
      case True
      with "1.prems" show ?thesis by (simp add: forward_h_break)
    next
      case False
      obtain last_nz1 s1 where p: "push_zero_row_h cols i last_nz s = (last_nz1, s1)"
        by (cases "push_zero_row_h cols i last_nz s")
      let ?s2 = "find_pivot_h i j last_nz1 s1"
      from loop have i: "i < rws" and j: "int j < to_col" by simp_all
      note step = forward_h_step [OF i j False p refl]
      from private_copy_push_zero_row_h [OF "1.prems"(1) i "1.prems"(2) p]
      have s1: "private_copy st0 rws cols s1" and l1: "last_nz1 < int rws" by simp_all
      have s2: "private_copy st0 rws cols ?s2"
        using s1 i l1 by (rule private_copy_find_pivot_h)
      show ?thesis
      proof (cases "entry ?s2 i j = 0")
        case True
        have "private_copy st0 rws cols (snd (forward_h rws cols to_col i (j + 1) last_nz1 ?s2))
            \<and> fst (forward_h rws cols to_col i (j + 1) last_nz1 ?s2) < int rws"
          by (rule "1.IH"(1) [OF loop False p [symmetric] True s2 l1])
        with True show ?thesis by (simp add: step)
      next
        case nz: False
        let ?s4 = "eliminate_h cols i j [i + 1..<nat (last_nz1 + 1)] (normalize_pivot_h cols i j ?s2)"
        have "\<forall>k\<in>set [i + 1..<nat (last_nz1 + 1)]. k < rws"
          using l1 by auto
        then have s4: "private_copy st0 rws cols ?s4"
          by (intro private_copy_eliminate_h private_copy_normalize_pivot_h s2 i)
        have "private_copy st0 rws cols (snd (forward_h rws cols to_col (i + 1) (j + 1) last_nz1 ?s4))
            \<and> fst (forward_h rws cols to_col (i + 1) (j + 1) last_nz1 ?s4) < int rws"
          by (rule "1.IH"(2) [OF loop False p [symmetric] nz s4 l1])
        with nz show ?thesis by (simp add: step)
      qed
    qed
  qed
qed

lemma last_nz_loop_h_le: "last_nz_loop_h cols s l \<le> l"
proof (induction cols s l rule: last_nz_loop_h.induct)
  case (1 cols s l)
  show ?case
  proof (cases "l \<ge> 0 \<and> is_zero_h cols s (nat l)")
    case True
    with "1.IH" have "last_nz_loop_h cols s (l - 1) \<le> l - 1" by simp
    with True show ?thesis by (simp add: last_nz_loop_h.simps [of cols s l])
  next
    case False
    then show ?thesis by (auto simp: last_nz_loop_h.simps [of cols s l])
  qed
qed

lemma private_copy_clear_above_h:
  "private_copy st0 rws cols s \<Longrightarrow> i \<le> rws \<Longrightarrow>
   private_copy st0 rws cols (clear_above_h cols to_col i s)"
  by (auto simp: clear_above_h_def split: option.splits intro!: private_copy_eliminate_h)

lemma private_copy_backward_h:
  assumes "private_copy st0 rws cols s" and "last_nz < int rws"
  shows "private_copy st0 rws cols (backward_h cols to_col last_nz s)"
proof -
  have "private_copy st0 rws cols s \<Longrightarrow> \<forall>i\<in>set ks. i \<le> rws \<Longrightarrow>
        private_copy st0 rws cols (fold (\<lambda>i s. clear_above_h cols to_col i s) ks s)" for ks
    by (induction ks arbitrary: s) (simp_all add: private_copy_clear_above_h)
  moreover have "\<forall>i\<in>set (rev [0..<nat (last_nz + 1)]). i \<le> rws"
    using assms(2) by auto
  ultimately show ?thesis using assms(1) by (simp add: backward_h_def)
qed

lemma private_copy_initial:
  assumes "rows_in_store st e_args"
  shows "private_copy st (length e_args) (length (st ! hd e_args))
           \<lparr>store = st @ map (\<lambda>a. st ! a) e_args,
            mat = [length st..<length st + length e_args],
            lines = []\<rparr>"
proof -
  have "length ((st @ map (\<lambda>a. st ! a) e_args) ! b) = length (st ! hd e_args)"
    if "length st \<le> b" "b < length st + length e_args" for b
  proof -
    from that have k: "b - length st < length e_args" by simp
    have eq: "(st @ map (\<lambda>a. st ! a) e_args) ! b = st ! (e_args ! (b - length st))"
      using that k by (simp add: nth_append)
    have "e_args ! (b - length st) \<in> set e_args" using k by simp
    with assms have "length (st ! (e_args ! (b - length st))) = length (st ! hd e_args)"
      unfolding rows_in_store_def list_all_iff by blast
    then show ?thesis by (simp only: eq)
  qed
  then show ?thesis
    unfolding private_copy_def by auto
qed

text \<open>
  C9. Let the rows of \<open>A\<close> be objects of the store \<open>st\<close>, and let \<open>to_col\<close> be
  \<open>None\<close> or an \<open>int\<close>. Whatever \<open>rref\<close> and \<open>steps_out\<close> are, the call returns; in
  the store it leaves, every object that existed before the call (the rows of \<open>A\<close>
  among them) is unchanged, and the rows of the result are objects allocated by the call.
\<close>

theorem row_reduce_leaves_input_unchanged:
  fixes st :: "('a::field) list list"
  assumes "rows_in_store st e_args" and "valid_to_col to_col"
  shows "\<exists>st' res out.
           row_reduce_h st e_args rref steps_out to_col = Inr (st', res, out)
         \<and> take (length st) st' = st
         \<and> list_all (\<lambda>a. a < length st \<and> st' ! a = st ! a) e_args
         \<and> list_all (\<lambda>a. length st \<le> a \<and> a < length st') res
         \<and> length res = length e_args"
proof -
  from assms(1) obtain a0 as where e: "e_args = a0 # as"
    by (cases e_args) (auto simp: rows_in_store_def)
  let ?rws = "length e_args" and ?cols = "length (st ! a0)"
  obtain t where t: "(case to_col of None \<Rightarrow> Inr (int ?cols)
                 | Some (IntArg t) \<Rightarrow> Inr t
                 | Some _ \<Rightarrow> Inl ValueError) = Inr t"
    using assms(2) by (auto simp: valid_to_col_def split: option.splits arg.splits)
  let ?tc = "min (int ?cols) t"
  let ?s0 = "\<lparr>store = st @ map (\<lambda>a. st ! a) e_args,
            mat = [length st..<length st + length e_args],
            lines = []\<rparr>"
  let ?l = "last_nz_loop_h ?cols ?s0 (int ?rws - 1)"
  have s0: "private_copy st ?rws ?cols ?s0"
    using private_copy_initial [OF assms(1)] by (simp add: e)
  have l: "?l < int ?rws"
    using last_nz_loop_h_le [of ?cols ?s0 "int ?rws - 1"] by simp
  obtain last_nz s where f: "forward_h ?rws ?cols ?tc 0 0 ?l ?s0 = (last_nz, s)"
    by (cases "forward_h ?rws ?cols ?tc 0 0 ?l ?s0")
  have s: "private_copy st ?rws ?cols s" and ln: "last_nz < int ?rws"
    using private_copy_forward_h [OF s0 l, of ?tc 0 0] by (simp_all add: f)
  define s' where "s' = (if rref then backward_h ?cols ?tc last_nz s else s)"
  have s': "private_copy st ?rws ?cols s'"
    unfolding s'_def using s ln by (simp add: private_copy_backward_h)
  have len: "length (mat s') = ?rws" and pre: "take (length st) (store s') = st"
    and sz: "length (store s') = length st + ?rws"
    and fresh: "\<forall>a\<in>set (mat s'). length st \<le> a \<and> a < length st + ?rws"
    and wide: "\<forall>a. length st \<le> a \<and> a < length st + ?rws \<longrightarrow> length (store s' ! a) = ?cols"
    using s' unfolding private_copy_def by blast+
  have "mat s' ! 0 \<in> set (mat s')" using len by (simp add: e)
  with fresh wide have c0: "length (store s' ! (mat s' ! 0)) = ?cols" by blast
  have ok: "\<not> list_ex (\<lambda>a. length (store s' ! a) \<noteq> length (store s' ! (mat s' ! 0))) (mat s')"
    unfolding list_ex_iff c0 using fresh wide by blast
  have ne: "length (mat s') \<noteq> 0" using len by (simp add: e)
  have rr: "row_reduce_h st e_args rref steps_out to_col
          = Inr (store s', mat s', map_option (\<lambda>out. out @ lines s') steps_out)"
    using t f ok ne unfolding row_reduce_h_def s'_def e by simp
  have old: "list_all (\<lambda>a. a < length st \<and> store s' ! a = st ! a) e_args"
    unfolding list_all_iff
  proof
    fix a assume "a \<in> set e_args"
    with assms(1) have a: "a < length st"
      unfolding rows_in_store_def list_all_iff by blast
    then have "take (length st) (store s') ! a = store s' ! a" by simp
    with pre a show "a < length st \<and> store s' ! a = st ! a" by simp
  qed
  have new: "list_all (\<lambda>a. length st \<le> a \<and> a < length (store s')) (mat s')"
    unfolding list_all_iff sz using fresh by blast
  show ?thesis
    using rr pre old new len by blast
qed

theorem row_reduce_leaves_input_unchanged_witness:
  "rows_in_store [[1, 2], [3, 4::rat]] [0, 1] \<and> valid_to_col None
   \<and> row_reduce_h [[1, 2], [3, 4::rat]] [0, 1] True (Some []) None
       = Inr ([[1, 2], [3, 4], [1, 0], [0, 1]], [2, 3],
              Some [Replace 1 0 (- 3), Scale 1 (- (1 / 2)), Replace 0 1 (- 2)])
   \<and> take (length [[1, 2], [3, 4::rat]]) [[1, 2], [3, 4], [1, 0], [0, 1::rat]] = [[1, 2], [3, 4]]"
proof -
  have h1: "rows_in_store [[1, 2], [3, 4::rat]] [0, 1]"
    by (simp add: rows_in_store_def)
  have h2: "valid_to_col None"
    by (simp add: valid_to_col_def)
  have r: "row_reduce_h [[1, 2], [3, 4::rat]] [0, 1] True (Some []) None
       = Inr ([[1, 2], [3, 4], [1, 0], [0, 1]], [2, 3],
              Some [Replace 1 0 (- 3), Scale 1 (- (1 / 2)), Replace 0 1 (- 2)])"
    by code_simp
  from row_reduce_leaves_input_unchanged [OF h1 h2, of True "Some []"]
  obtain st' res out where
    "row_reduce_h [[1, 2], [3, 4::rat]] [0, 1] True (Some []) None = Inr (st', res, out)"
    and "take (length [[1, 2], [3, 4::rat]]) st' = [[1, 2], [3, 4]]"
    by blast
  with r have "take (length [[1, 2], [3, 4::rat]]) [[1, 2], [3, 4], [1, 0], [0, 1::rat]] = [[1, 2], [3, 4]]"
    by simp
  with h1 h2 r show ?thesis by blast
qed

section \<open>The row operations, entry by entry\<close>

lemma is_zero_iff: "is_zero cols m i \<longleftrightarrow> (\<forall>k<cols. m ! i ! k = 0)"
  by (auto simp: is_zero_def list_all_iff)

lemma swap_rows_nth:
  "i < length m \<Longrightarrow> j < length m \<Longrightarrow>
   swap_rows i j m ! r = (if r = j then m ! i else if r = i then m ! j else m ! r)"
  by (simp add: swap_rows_def nth_list_update)

lemma scale_row_nth:
  "i < length m \<Longrightarrow>
   scale_row cols i c m ! r = (if r = i then map (\<lambda>k. m ! i ! k * c) [0..<cols] else m ! r)"
  by (simp add: scale_row_def nth_list_update)

lemma replace_row_nth:
  "i < length m \<Longrightarrow>
   replace_row cols i j c m ! r =
     (if r = i then map (\<lambda>k. m ! i ! k + c * m ! j ! k) [0..<cols] else m ! r)"
  by (simp add: replace_row_def nth_list_update)

lemma shaped_length: "shaped rws cols m \<Longrightarrow> length m = rws"
  by (simp add: shaped_def)

lemma shaped_row_eq:
  assumes "shaped rws cols m" and "r < rws" and "\<forall>k<cols. m ! r ! k = f k"
  shows "m ! r = map f [0..<cols]"
proof (rule nth_equalityI)
  show "length (m ! r) = length (map f [0..<cols])"
    using shaped_nth [OF assms(1,2)] by simp
  fix k assume "k < length (m ! r)"
  then have "k < cols" using shaped_nth [OF assms(1,2)] by simp
  with assms(3) show "m ! r ! k = map f [0..<cols] ! k" by simp
qed

text \<open>
  The loop \<open>for k in ks: if mat[k][j] != 0: replace(k, i, -mat[k][j])\<close> with the pivot
  row \<open>i\<close> outside \<open>ks\<close>: every row \<open>r\<close> of \<open>ks\<close> becomes
  \<open>row r - mat[r][j] * row i\<close>, and the other rows stay.
\<close>

lemma eliminate_rows:
  assumes "shaped rws cols (fst s)" and "i < rws" and "i \<notin> set ks" and "distinct ks"
    and "\<forall>k\<in>set ks. k < rws" and "r < rws"
  shows "fst (eliminate cols i j ks s) ! r =
           (if r \<in> set ks
            then map (\<lambda>k. fst s ! r ! k - fst s ! r ! j * fst s ! i ! k) [0..<cols]
            else fst s ! r)"
  using assms
proof (induction ks arbitrary: s)
  case Nil
  then show ?case by (simp add: eliminate_def)
next
  case (Cons k ks)
  let ?m = "fst s"
  let ?s1 = "if ?m ! k ! j \<noteq> 0 then replace cols k i (- (?m ! k ! j)) s else s"
  have k: "k < rws" "k \<noteq> i" "k \<notin> set ks" using Cons.prems by auto
  have len: "length ?m = rws" using Cons.prems(1) by (rule shaped_length)
  have sh1: "shaped rws cols (fst ?s1)"
    using Cons.prems(1) by (simp add: replace_def shaped_replace_row)
  have rowk: "fst ?s1 ! k = map (\<lambda>c. ?m ! k ! c - ?m ! k ! j * ?m ! i ! c) [0..<cols]"
  proof (cases "?m ! k ! j = 0")
    case True
    then have "?m ! k = map (\<lambda>c. ?m ! k ! c - ?m ! k ! j * ?m ! i ! c) [0..<cols]"
      by (intro shaped_row_eq [OF Cons.prems(1) k(1)]) simp
    with True show ?thesis by simp
  next
    case False
    then show ?thesis using k(1) len by (simp add: replace_def replace_row_nth)
  qed
  have other: "fst ?s1 ! q = ?m ! q" if "q \<noteq> k" for q
    using that k(1) len by (simp add: replace_def replace_row_nth)
  have step: "eliminate cols i j (k # ks) s = eliminate cols i j ks ?s1"
    by (simp add: eliminate_def)
  have IH: "fst (eliminate cols i j ks ?s1) ! r =
           (if r \<in> set ks
            then map (\<lambda>c. fst ?s1 ! r ! c - fst ?s1 ! r ! j * fst ?s1 ! i ! c) [0..<cols]
            else fst ?s1 ! r)"
    using Cons.prems by (intro Cons.IH sh1) auto
  show ?case
  proof (cases "r = k")
    case True
    with IH k(3) rowk show ?thesis by (simp add: step)
  next
    case False
    with IH other [of r] other [of i] k(2) show ?thesis
      by (simp add: step del: fst_conv)
  qed
qed

lemma eliminate_nothing:
  "\<forall>k\<in>set ks. fst s ! k ! j = 0 \<Longrightarrow> eliminate cols i j ks s = s"
  unfolding eliminate_def by (induction ks) simp_all

section \<open>The forward pass produces an echelon form\<close>

lemma forward_invariant:
  assumes "Inv i j last_nz s"
    and skip: "\<And>i j l s l1 s1. Inv i j l s \<Longrightarrow> i < rws \<Longrightarrow> int j < to_col \<Longrightarrow>
        \<not> (is_zero cols (fst s) i \<and> int i \<ge> l) \<Longrightarrow> push_zero_row cols i l s = (l1, s1) \<Longrightarrow>
        fst (find_pivot i j l1 s1) ! i ! j = 0 \<Longrightarrow> Inv i (j + 1) l1 (find_pivot i j l1 s1)"
    and pivot: "\<And>i j l s l1 s1. Inv i j l s \<Longrightarrow> i < rws \<Longrightarrow> int j < to_col \<Longrightarrow>
        \<not> (is_zero cols (fst s) i \<and> int i \<ge> l) \<Longrightarrow> push_zero_row cols i l s = (l1, s1) \<Longrightarrow>
        fst (find_pivot i j l1 s1) ! i ! j \<noteq> 0 \<Longrightarrow>
        Inv (i + 1) (j + 1) l1
          (eliminate cols i j [i + 1..<nat (l1 + 1)] (normalize_pivot cols i j (find_pivot i j l1 s1)))"
  shows "\<exists>i' j'. Inv i' j' (fst (forward rws cols to_col i j last_nz s))
                    (snd (forward rws cols to_col i j last_nz s))
           \<and> (\<not> (i' < rws \<and> int j' < to_col)
              \<or> (is_zero cols (fst (snd (forward rws cols to_col i j last_nz s))) i'
                  \<and> int i' \<ge> fst (forward rws cols to_col i j last_nz s)))"
  using assms
proof (induction rws cols to_col i j last_nz s rule: forward.induct)
  case (1 rws cols to_col i j last_nz s)
  note inv = "1.prems"(1) and skip = "1.prems"(2) and pivot = "1.prems"(3)
  show ?case
  proof (cases "i < rws \<and> int j < to_col")
    case False
    with inv show ?thesis unfolding forward_stop [OF False] by auto
  next
    case loop: True
    show ?thesis
    proof (cases "is_zero cols (fst s) i \<and> int i \<ge> last_nz")
      case True
      then have "forward rws cols to_col i j last_nz s = (last_nz, s)"
        by (simp add: forward_break)
      with inv True show ?thesis by auto
    next
      case False
      obtain l1 s1 where p: "push_zero_row cols i last_nz s = (l1, s1)"
        by (cases "push_zero_row cols i last_nz s")
      let ?s2 = "find_pivot i j l1 s1"
      from loop have i: "i < rws" and j: "int j < to_col" by simp_all
      note step = forward_step [OF i j False p refl]
      show ?thesis
      proof (cases "fst ?s2 ! i ! j = 0")
        case True
        have inv': "Inv i (j + 1) l1 ?s2"
          using inv i j False p True by (rule skip)
        have eq: "forward rws cols to_col i j last_nz s
            = forward rws cols to_col i (j + 1) l1 ?s2"
          using True by (simp only: step simp_thms if_True)
        show ?thesis
          unfolding eq by (rule "1.IH"(1) [OF loop False p [symmetric] True inv' skip pivot])
      next
        case nz: False
        have inv': "Inv (i + 1) (j + 1) l1
          (eliminate cols i j [i + 1..<nat (l1 + 1)] (normalize_pivot cols i j ?s2))"
          using inv i j False p nz by (rule pivot)
        have eq: "forward rws cols to_col i j last_nz s
            = forward rws cols to_col (i + 1) (j + 1) l1
                (eliminate cols i j [i + 1..<nat (l1 + 1)] (normalize_pivot cols i j ?s2))"
          using nz by (simp only: step simp_thms if_False)
        show ?thesis
          unfolding eq by (rule "1.IH"(2) [OF loop False p [symmetric] nz inv' skip pivot])
      qed
    qed
  qed
qed


lemma echelon_rows:
  assumes "echelon rws m cs j"
    and "\<forall>t<length cs. m' ! t = m ! t"
    and "\<forall>r. length cs \<le> r \<and> r < rws \<longrightarrow> (\<forall>k<j. m' ! r ! k = 0)"
  shows "echelon rws m' cs j"
  using assms unfolding echelon_def by simp

lemma echelon_swap_rows:
  assumes "echelon rws m cs j" and "length m = rws"
    and "length cs \<le> a" and "a < rws" and "length cs \<le> b" and "b < rws"
  shows "echelon rws (swap_rows a b m) cs j"
proof (rule echelon_rows [OF assms(1)])
  show "\<forall>t<length cs. swap_rows a b m ! t = m ! t"
    using assms by (simp add: swap_rows_nth)
  show "\<forall>r. length cs \<le> r \<and> r < rws \<longrightarrow> (\<forall>k<j. swap_rows a b m ! r ! k = 0)"
  proof (intro allI impI)
    fix r k assume r: "length cs \<le> r \<and> r < rws" and k: "k < j"
    have z: "\<And>q. length cs \<le> q \<Longrightarrow> q < rws \<Longrightarrow> m ! q ! k = 0"
      using assms(1) k unfolding echelon_def by blast
    show "swap_rows a b m ! r ! k = 0"
      using assms(2-6) r z [of a] z [of b] z [of r] by (simp add: swap_rows_nth)
  qed
qed

lemma forward_inv_push_zero_row:
  assumes "forward_inv rws cols i j l s" and "i < rws"
    and "\<not> (is_zero cols (fst s) i \<and> int i \<ge> l)"
    and "push_zero_row cols i l s = (l1, s1)"
  shows "forward_inv rws cols i j l1 s1"
proof (cases "is_zero cols (fst s) i")
  case False
  with assms(1,4) show ?thesis by (simp add: push_zero_row_def)
next
  case True
  let ?m = "fst s"
  from True assms(3) have il: "int i < l" by simp
  from assms(1) obtain cs where cs: "length cs = i" "echelon rws ?m cs j"
    and sh: "shaped rws cols ?m" and j: "j \<le> cols" and za: "zeros_after rws cols ?m l"
    unfolding forward_inv_def by blast
  have len: "length ?m = rws" using sh by (rule shaped_length)
  from za have l: "l < int rws" and zr: "\<And>r k. l < int r \<Longrightarrow> r < rws \<Longrightarrow> k < cols \<Longrightarrow> ?m ! r ! k = 0"
    unfolding zeros_after_def by blast+
  have nl: "nat l < rws" "i < nat l" using il l by linarith+
  from True assms(4) have r: "l1 = l - 1" "s1 = swap i (nat l) s"
    by (simp_all add: push_zero_row_def)
  let ?m1 = "swap_rows i (nat l) ?m"
  have e1: "echelon rws ?m1 cs j"
    using cs(2) len _ assms(2) _ nl(1) by (rule echelon_swap_rows) (use cs(1) nl(2) in simp_all)
  have s1: "shaped rws cols ?m1"
    using sh assms(2) nl(1) by (rule shaped_swap_rows)
  have z1: "zeros_after rws cols ?m1 (l - 1)"
    unfolding zeros_after_def
  proof (intro conjI allI impI)
    show "- 1 \<le> l - 1" using il by simp
    show "l - 1 < int rws" using l by simp
    fix r k assume r: "l - 1 < int r \<and> r < rws" and k: "k < cols"
    show "?m1 ! r ! k = 0"
    proof (cases "r = nat l")
      case True
      then have "?m1 ! r = ?m ! i" using len nl assms(2) by (simp add: swap_rows_nth)
      moreover have "?m ! i ! k = 0" using \<open>is_zero cols ?m i\<close> k by (simp add: is_zero_iff)
      ultimately show ?thesis by simp
    next
      case False
      with r have lr: "l < int r" by linarith
      with il have "r \<noteq> i" by linarith
      with False have "?m1 ! r = ?m ! r" using len nl assms(2) by (simp add: swap_rows_nth)
      with zr [OF lr] r k show ?thesis by simp
    qed
  qed
  show ?thesis
    unfolding forward_inv_def r swap_def using cs(1) e1 s1 j z1 by auto
qed

lemma find_in_range:
  "find P [a..<b] = Some k \<Longrightarrow> a \<le> k \<and> k < b \<and> P k"
  by (auto simp: find_Some_iff)

lemma find_none_range:
  "find P [a..<b] = None \<Longrightarrow> a \<le> k \<Longrightarrow> k < b \<Longrightarrow> \<not> P k"
  by (auto simp: find_None_iff)

lemma forward_inv_find_pivot:
  assumes "forward_inv rws cols i j l s" and "i < rws"
  shows "forward_inv rws cols i j l (find_pivot i j l s)"
proof (cases "fst s ! i ! j = 0")
  case False
  with assms(1) show ?thesis by (simp add: find_pivot_def)
next
  case True
  let ?m = "fst s"
  show ?thesis
  proof (cases "find (\<lambda>k. ?m ! k ! j \<noteq> 0) [i + 1..<nat (l + 1)]")
    case None
    with True assms(1) show ?thesis by (simp add: find_pivot_def)
  next
    case (Some k)
    from find_in_range [OF Some] have k: "i < k" "k < nat (l + 1)" by simp_all
    from assms(1) obtain cs where cs: "length cs = i" "echelon rws ?m cs j"
      and sh: "shaped rws cols ?m" and j: "j \<le> cols" and za: "zeros_after rws cols ?m l"
      unfolding forward_inv_def by blast
    have len: "length ?m = rws" using sh by (rule shaped_length)
    from za have l: "l < int rws"
      and zr: "\<And>r c. l < int r \<Longrightarrow> r < rws \<Longrightarrow> c < cols \<Longrightarrow> ?m ! r ! c = 0"
      unfolding zeros_after_def by blast+
    have kr: "k < rws" using k(2) l by linarith
    have kl: "int k \<le> l" using k(2) by linarith
    let ?m1 = "swap_rows i k ?m"
    have e1: "echelon rws ?m1 cs j"
      using cs(2) len _ assms(2) _ kr by (rule echelon_swap_rows) (use cs(1) k(1) in simp_all)
    have s1: "shaped rws cols ?m1"
      using sh assms(2) kr by (rule shaped_swap_rows)
    have z1: "zeros_after rws cols ?m1 l"
      unfolding zeros_after_def
    proof (intro conjI allI impI)
      show "- 1 \<le> l" "l < int rws" using za unfolding zeros_after_def by simp_all
      fix r c assume r: "l < int r \<and> r < rws" and c: "c < cols"
      then have "r \<noteq> k" "r \<noteq> i" using kl k(1) by linarith+
      then have "?m1 ! r = ?m ! r" using len kr assms(2) by (simp add: swap_rows_nth)
      with zr [of r c] r c show "?m1 ! r ! c = 0" by simp
    qed
    have "find_pivot i j l s = swap i k s"
      using True Some by (simp add: find_pivot_def)
    then show ?thesis
      unfolding forward_inv_def swap_def using cs(1) e1 s1 j z1 by auto
  qed
qed

lemma find_pivot_column_zero:
  assumes "forward_inv rws cols i j l s" and "i < rws" and "j < cols"
    and "fst (find_pivot i j l s) ! i ! j = 0" and "i \<le> r" and "r < rws"
  shows "fst (find_pivot i j l s) ! r ! j = 0"
proof -
  let ?m = "fst s"
  from assms(1) have sh: "shaped rws cols ?m" and za: "zeros_after rws cols ?m l"
    unfolding forward_inv_def by blast+
  have len: "length ?m = rws" using sh by (rule shaped_length)
  from za have l: "l < int rws"
    and zr: "\<And>r c. l < int r \<Longrightarrow> r < rws \<Longrightarrow> c < cols \<Longrightarrow> ?m ! r ! c = 0"
    unfolding zeros_after_def by blast+
  have z: "?m ! i ! j = 0"
    using assms(4) by (cases "?m ! i ! j = 0") (simp_all add: find_pivot_def)
  show ?thesis
  proof (cases "find (\<lambda>k. ?m ! k ! j \<noteq> 0) [i + 1..<nat (l + 1)]")
    case None
    then have same: "find_pivot i j l s = s" using z by (simp add: find_pivot_def)
    have "?m ! r ! j = 0"
    proof (cases "r = i")
      case True
      with z show ?thesis by simp
    next
      case False
      show ?thesis
      proof (cases "l < int r")
        case True
        then show ?thesis using assms(6,3) by (rule zr)
      next
        case False
        with \<open>r \<noteq> i\<close> assms(5) have "i + 1 \<le> r" "r < nat (l + 1)" by linarith+
        from find_none_range [OF None this] show ?thesis by simp
      qed
    qed
    with same show ?thesis by simp
  next
    case (Some k)
    from find_in_range [OF Some] have k: "i < k" "k < nat (l + 1)" "?m ! k ! j \<noteq> 0" by simp_all
    have kr: "k < rws" using k(2) l by linarith
    have "find_pivot i j l s = swap i k s"
      using z Some by (simp add: find_pivot_def)
    then have "fst (find_pivot i j l s) ! i = ?m ! k"
      using len kr assms(2) k(1) by (simp add: swap_def swap_rows_nth)
    with assms(4) k(3) show ?thesis by simp
  qed
qed

lemma forward_inv_skip:
  assumes "forward_inv rws cols i j l s" and "j < cols"
    and "\<forall>r. i \<le> r \<and> r < rws \<longrightarrow> fst s ! r ! j = 0"
  shows "forward_inv rws cols i (j + 1) l s"
proof -
  from assms(1) obtain cs where cs: "length cs = i" "echelon rws (fst s) cs j"
    and rest: "shaped rws cols (fst s)" "zeros_after rws cols (fst s) l"
    unfolding forward_inv_def by blast
  have "echelon rws (fst s) cs (j + 1)"
    using cs assms(3) unfolding echelon_def
    by (auto simp: less_Suc_eq)
  with cs(1) rest assms(2) show ?thesis
    unfolding forward_inv_def by auto
qed

lemma normalize_pivot_rows:
  assumes "shaped rws cols (fst s)" and "i < rws"
  shows "fst (normalize_pivot cols i j s) ! r =
           (if r = i then map (\<lambda>k. fst s ! i ! k / fst s ! i ! j) [0..<cols] else fst s ! r)"
proof (cases "fst s ! i ! j = 1")
  case True
  have "fst s ! i = map (\<lambda>k. fst s ! i ! k / fst s ! i ! j) [0..<cols]"
    using assms by (rule shaped_row_eq) (simp add: True)
  with True show ?thesis by (simp add: normalize_pivot_def)
next
  case False
  have "length (fst s) = rws" using assms(1) by (rule shaped_length)
  with False assms(2) show ?thesis
    by (simp add: normalize_pivot_def scale_def scale_row_nth)
qed

lemma forward_inv_pivot:
  assumes "forward_inv rws cols i j l s" and "i < rws" and "j < cols"
    and "fst s ! i ! j \<noteq> 0"
  shows "forward_inv rws cols (i + 1) (j + 1) l
           (eliminate cols i j [i + 1..<nat (l + 1)] (normalize_pivot cols i j s))"
proof -
  let ?m = "fst s"
  let ?x = "?m ! i ! j"
  let ?s3 = "normalize_pivot cols i j s"
  let ?ks = "[Suc i..<nat (l + 1)]"
  let ?m4 = "fst (eliminate cols i j ?ks ?s3)"
  from assms(1) obtain cs where cs: "length cs = i" "echelon rws ?m cs j"
    and sh: "shaped rws cols ?m" and za: "zeros_after rws cols ?m l"
    unfolding forward_inv_def by blast
  from za have l: "l < int rws" "- 1 \<le> l"
    and zr: "\<And>r c. l < int r \<Longrightarrow> r < rws \<Longrightarrow> c < cols \<Longrightarrow> ?m ! r ! c = 0"
    unfolding zeros_after_def by blast+
  from cs(2) have srt: "sorted_wrt (<) cs" and lt: "\<forall>c\<in>set cs. c < j"
    and piv: "\<And>t. t < i \<Longrightarrow> ?m ! t ! (cs ! t) = 1 \<and> (\<forall>k<cs ! t. ?m ! t ! k = 0)"
    and low: "\<And>r k. i \<le> r \<Longrightarrow> r < rws \<Longrightarrow> k < j \<Longrightarrow> ?m ! r ! k = 0"
    unfolding echelon_def cs(1) by blast+
  have il: "int i \<le> l"
  proof (rule ccontr)
    assume "\<not> int i \<le> l"
    then have "l < int i" by simp
    from zr [OF this assms(2,3)] assms(4) show False by simp
  qed
  have sh3: "shaped rws cols (fst ?s3)" using sh by (rule shaped_normalize_pivot)
  have sh4: "shaped rws cols ?m4" using sh3 by (rule shaped_eliminate)
  have ks: "i \<notin> set ?ks" "distinct ?ks" "\<forall>k\<in>set ?ks. k < rws"
    using l by auto
  have m3: "fst ?s3 ! r = (if r = i then map (\<lambda>k. ?m ! i ! k / ?x) [0..<cols] else ?m ! r)" for r
    using sh assms(2) by (rule normalize_pivot_rows)
  have m4: "?m4 ! r =
           (if r \<in> set ?ks
            then map (\<lambda>k. fst ?s3 ! r ! k - fst ?s3 ! r ! j * fst ?s3 ! i ! k) [0..<cols]
            else fst ?s3 ! r)" if "r < rws" for r
    using sh3 assms(2) ks that by (rule eliminate_rows)
  have above: "?m4 ! t = ?m ! t" if "t < i" for t
    using that assms(2) by (simp add: m4 m3)
  have rowi: "?m4 ! i ! k = ?m ! i ! k / ?x" if "k < cols" for k
    using that assms(2) by (simp add: m4 m3)
  have below: "?m4 ! r ! k = ?m ! r ! k - ?m ! r ! j * (?m ! i ! k / ?x)"
    if "i < r" "int r \<le> l" "k < cols" for r k
  proof -
    from that l have "r < rws" "r \<in> set ?ks" by auto
    with that assms(3) show ?thesis by (simp add: m4 m3)
  qed
  have zero: "?m4 ! r = ?m ! r" if "l < int r" "r < rws" for r
  proof -
    from that il have "\<not> r < nat (l + 1)" "r \<noteq> i" by linarith+
    with that show ?thesis by (simp add: m4 m3)
  qed
  have "echelon rws ?m4 (cs @ [j]) (j + 1)"
    unfolding echelon_def
  proof (intro conjI allI impI ballI)
    show "sorted_wrt (<) (cs @ [j])" using srt lt by (simp add: sorted_wrt_append)
    show "c < j + 1" if "c \<in> set (cs @ [j])" for c using that lt by auto
    show "length (cs @ [j]) \<le> rws" using cs(1) assms(2) by simp
  next
    fix t assume t: "t < length (cs @ [j])"
    show "?m4 ! t ! ((cs @ [j]) ! t) = 1"
    proof (cases "t < i")
      case True
      with piv [of t] show ?thesis by (simp add: above nth_append cs(1))
    next
      case False
      with t cs(1) have "t = i" by simp
      then show ?thesis using assms(3,4) by (simp add: nth_append cs(1) rowi)
    qed
  next
    fix t k assume t: "t < length (cs @ [j])" and k: "k < (cs @ [j]) ! t"
    show "?m4 ! t ! k = 0"
    proof (cases "t < i")
      case True
      with piv [of t] k show ?thesis by (simp add: above nth_append cs(1))
    next
      case False
      with t cs(1) have ti: "t = i" by simp
      with k have kj: "k < j" by (simp add: nth_append cs(1))
      then have "k < cols" using assms(3) by simp
      moreover have "?m ! i ! k = 0" using low [of i k] assms(2) kj by simp
      ultimately show ?thesis by (simp add: ti rowi)
    qed
  next
    fix r k assume r: "length (cs @ [j]) \<le> r \<and> r < rws" and k: "k < j + 1"
    then have ir: "i < r" "r < rws" using cs(1) by simp_all
    have kc: "k < cols" using k assms(3) by simp
    show "?m4 ! r ! k = 0"
    proof (cases "int r \<le> l")
      case True
      show ?thesis
      proof (cases "k = j")
        case True
        with assms(4) below [OF ir(1) \<open>int r \<le> l\<close> kc] show ?thesis by simp
      next
        case False
        with k have "k < j" by simp
        then have "?m ! r ! k = 0" "?m ! i ! k = 0"
          using low [of r k] low [of i k] ir assms(2) by simp_all
        with below [OF ir(1) True kc] show ?thesis by simp
      qed
    next
      case False
      then have lr: "l < int r" by simp
      from zero [OF lr ir(2)] zr [OF lr ir(2) kc] show ?thesis by simp
    qed
  qed
  moreover have "zeros_after rws cols ?m4 l"
    unfolding zeros_after_def using l zero zr by simp
  ultimately have "forward_inv rws cols (i + 1) (j + 1) l (eliminate cols i j ?ks ?s3)"
    unfolding forward_inv_def using sh4 assms(3) cs(1)
    by (intro conjI exI [of _ "cs @ [j]"]) simp_all
  then show ?thesis by simp
qed

lemma trace_inv_swap:
  "trace_inv A rws cols s \<Longrightarrow> i < rws \<Longrightarrow> j < rws \<Longrightarrow> trace_inv A rws cols (swap i j s)"
  by (simp add: trace_inv_def swap_def)

lemma trace_inv_scale:
  "trace_inv A rws cols s \<Longrightarrow> i < rws \<Longrightarrow> c \<noteq> 0 \<Longrightarrow> trace_inv A rws cols (scale cols i c s)"
  by (simp add: trace_inv_def scale_def)

lemma trace_inv_replace:
  "trace_inv A rws cols s \<Longrightarrow> i < rws \<Longrightarrow> j < rws \<Longrightarrow> i \<noteq> j \<Longrightarrow>
   trace_inv A rws cols (replace cols i j c s)"
  by (simp add: trace_inv_def replace_def)

lemma trace_inv_eliminate:
  "trace_inv A rws cols s \<Longrightarrow> i < rws \<Longrightarrow> \<forall>k\<in>set ks. k < rws \<and> k \<noteq> i \<Longrightarrow>
   trace_inv A rws cols (eliminate cols i j ks s)"
  unfolding eliminate_def
  by (induction ks arbitrary: s) (simp_all add: trace_inv_replace)

lemma trace_inv_push_zero_row:
  assumes "trace_inv A rws cols s" and "zeros_after rws cols (fst s) l" and "i < rws"
    and "push_zero_row cols i l s = (l1, s1)"
    and "\<not> (is_zero cols (fst s) i \<and> int i \<ge> l)"
  shows "trace_inv A rws cols s1"
proof (cases "is_zero cols (fst s) i")
  case True
  with assms(5) have "int i < l" by simp
  moreover have "l < int rws" using assms(2) by (simp add: zeros_after_def)
  ultimately have "nat l < rws" by linarith
  with True assms(1,3,4) show ?thesis
    by (auto simp: push_zero_row_def trace_inv_swap)
next
  case False
  with assms(1,4) show ?thesis by (simp add: push_zero_row_def)
qed

lemma trace_inv_find_pivot:
  assumes "trace_inv A rws cols s" and "zeros_after rws cols (fst s) l" and "i < rws"
  shows "trace_inv A rws cols (find_pivot i j l s)"
proof (cases "find (\<lambda>k. fst s ! k ! j \<noteq> 0) [i + 1..<nat (l + 1)]")
  case None
  with assms(1) show ?thesis by (simp add: find_pivot_def)
next
  case (Some k)
  from find_in_range [OF Some] have "k < nat (l + 1)" by simp
  moreover have "l < int rws" using assms(2) by (simp add: zeros_after_def)
  ultimately have "k < rws" by linarith
  with Some assms(1,3) show ?thesis by (simp add: find_pivot_def trace_inv_swap)
qed

lemma trace_inv_normalize_pivot:
  "trace_inv A rws cols s \<Longrightarrow> i < rws \<Longrightarrow> fst s ! i ! j \<noteq> 0 \<Longrightarrow>
   trace_inv A rws cols (normalize_pivot cols i j s)"
  by (simp add: normalize_pivot_def trace_inv_scale)

lemma zeros_after_last_nz_loop:
  "zeros_after rws cols m l \<Longrightarrow> zeros_after rws cols m (last_nz_loop cols m l)"
proof (induction cols m l rule: last_nz_loop.induct)
  case (1 cols m l)
  show ?case
  proof (cases "l \<ge> 0 \<and> is_zero cols m (nat l)")
    case True
    have "zeros_after rws cols m (l - 1)"
      unfolding zeros_after_def
    proof (intro conjI allI impI)
      show "- 1 \<le> l - 1" using True by simp
      show "l - 1 < int rws" using "1.prems" by (simp add: zeros_after_def)
      fix r k assume r: "l - 1 < int r \<and> r < rws" and k: "k < cols"
      show "m ! r ! k = 0"
      proof (cases "r = nat l")
        case True
        with \<open>l \<ge> 0 \<and> is_zero cols m (nat l)\<close> k show ?thesis by (simp add: is_zero_iff)
      next
        case False
        with r True have "l < int r" by linarith
        with "1.prems" r k show ?thesis by (simp add: zeros_after_def)
      qed
    qed
    from "1.IH" [OF True this] True show ?thesis
      by (simp add: last_nz_loop.simps [of cols m l])
  next
    case False
    with "1.prems" show ?thesis by (auto simp: last_nz_loop.simps [of cols m l])
  qed
qed

text \<open>
  The forward pass on a matrix \<open>A\<close> of \<open>rws\<close> rows and \<open>cols\<close> columns: the result is
  an echelon form over all columns, reached from \<open>A\<close> by elementary row operations.
\<close>

lemma forward_echelon:
  assumes "shaped rws cols A" and "0 < rws"
    and "forward rws cols (int cols) 0 0 (last_nz_loop cols A (int rws - 1)) (A, []) = (l', s')"
  shows "\<exists>cs. echelon rws (fst s') cs cols \<and> int (length cs) - 1 \<le> l'"
    and "shaped rws cols (fst s')" and "zeros_after rws cols (fst s') l'"
    and "trace_inv A rws cols s'"
proof -
  let ?l0 = "last_nz_loop cols A (int rws - 1)"
  let ?Inv = "\<lambda>i j l s. forward_inv rws cols i j l s \<and> trace_inv A rws cols s"
  have "zeros_after rws cols A (int rws - 1)"
    unfolding zeros_after_def using assms(2) by (intro conjI allI impI) linarith+
  then have z0: "zeros_after rws cols A ?l0" by (rule zeros_after_last_nz_loop)
  have "echelon rws A [] 0" using assms(2) by (simp add: echelon_def)
  with assms(1) z0 have "forward_inv rws cols 0 0 ?l0 (A, [])"
    by (simp add: forward_inv_def)
  moreover have "trace_inv A rws cols (A, [])" by (simp add: trace_inv_def)
  ultimately have I0: "?Inv 0 0 ?l0 (A, [])" by simp
  have common: "forward_inv rws cols i j l1 s1 \<and> forward_inv rws cols i j l1 (find_pivot i j l1 s1)
        \<and> trace_inv A rws cols (find_pivot i j l1 s1) \<and> l1 < int rws"
    if inv: "?Inv i j l s" and i: "i < rws"
      and nb: "\<not> (is_zero cols (fst s) i \<and> int i \<ge> l)"
      and p: "push_zero_row cols i l s = (l1, s1)" for i j l s l1 s1
  proof -
    from inv have fi: "forward_inv rws cols i j l s" and ti: "trace_inv A rws cols s"
      by blast+
    from fi have za: "zeros_after rws cols (fst s) l" unfolding forward_inv_def by blast
    have f1: "forward_inv rws cols i j l1 s1"
      using fi i nb p by (rule forward_inv_push_zero_row)
    have t1: "trace_inv A rws cols s1"
      using ti za i p nb by (rule trace_inv_push_zero_row)
    from f1 have za1: "zeros_after rws cols (fst s1) l1" unfolding forward_inv_def by blast
    have f2: "forward_inv rws cols i j l1 (find_pivot i j l1 s1)"
      using f1 i by (rule forward_inv_find_pivot)
    have t2: "trace_inv A rws cols (find_pivot i j l1 s1)"
      using t1 za1 i by (rule trace_inv_find_pivot)
    have "l1 < int rws" using za1 unfolding zeros_after_def by blast
    with f1 f2 t2 show ?thesis by blast
  qed
  have "\<exists>i' j'. ?Inv i' j' (fst (forward rws cols (int cols) 0 0 ?l0 (A, [])))
                    (snd (forward rws cols (int cols) 0 0 ?l0 (A, [])))
           \<and> (\<not> (i' < rws \<and> int j' < int cols)
              \<or> (is_zero cols (fst (snd (forward rws cols (int cols) 0 0 ?l0 (A, [])))) i'
                  \<and> int i' \<ge> fst (forward rws cols (int cols) 0 0 ?l0 (A, []))))"
  proof (rule forward_invariant [where Inv = ?Inv, OF I0])
    fix i j l s l1 s1
    assume inv: "?Inv i j l s" and i: "i < rws" and j: "int j < int cols"
      and nb: "\<not> (is_zero cols (fst s) i \<and> int i \<ge> l)"
      and p: "push_zero_row cols i l s = (l1, s1)"
      and z: "fst (find_pivot i j l1 s1) ! i ! j = 0"
    let ?s2 = "find_pivot i j l1 s1"
    from common [OF inv i nb p] have f1: "forward_inv rws cols i j l1 s1"
      and f2: "forward_inv rws cols i j l1 ?s2" and t2: "trace_inv A rws cols ?s2" by blast+
    have jc: "j < cols" using j by simp
    have "\<forall>r. i \<le> r \<and> r < rws \<longrightarrow> fst ?s2 ! r ! j = 0"
      using find_pivot_column_zero [OF f1 i jc z] by blast
    with f2 jc have "forward_inv rws cols i (j + 1) l1 ?s2" by (rule forward_inv_skip)
    with t2 show "?Inv i (j + 1) l1 ?s2" by blast
  next
    fix i j l s l1 s1
    assume inv: "?Inv i j l s" and i: "i < rws" and j: "int j < int cols"
      and nb: "\<not> (is_zero cols (fst s) i \<and> int i \<ge> l)"
      and p: "push_zero_row cols i l s = (l1, s1)"
      and nz: "fst (find_pivot i j l1 s1) ! i ! j \<noteq> 0"
    let ?s2 = "find_pivot i j l1 s1"
    let ?s4 = "eliminate cols i j [i + 1..<nat (l1 + 1)] (normalize_pivot cols i j ?s2)"
    from common [OF inv i nb p] have f2: "forward_inv rws cols i j l1 ?s2"
      and t2: "trace_inv A rws cols ?s2" and l1: "l1 < int rws" by blast+
    have jc: "j < cols" using j by simp
    have f4: "forward_inv rws cols (i + 1) (j + 1) l1 ?s4"
      using f2 i jc nz by (rule forward_inv_pivot)
    have "\<forall>k\<in>set [i + 1..<nat (l1 + 1)]. k < rws \<and> k \<noteq> i" using l1 by auto
    then have "trace_inv A rws cols ?s4"
      by (intro trace_inv_eliminate trace_inv_normalize_pivot t2 i nz)
    with f4 show "?Inv (i + 1) (j + 1) l1 ?s4" by blast
  qed
  then obtain i' j' where fi: "forward_inv rws cols i' j' l' s'" and tr: "trace_inv A rws cols s'"
    and ex: "\<not> (i' < rws \<and> j' < cols) \<or> (is_zero cols (fst s') i' \<and> int i' \<ge> l')"
    unfolding assms(3) by auto
  let ?m = "fst s'"
  from fi obtain cs where cs: "length cs = i'" "echelon rws ?m cs j'"
    and sh: "shaped rws cols ?m" and j': "j' \<le> cols" and za: "zeros_after rws cols ?m l'"
    unfolding forward_inv_def by blast
  from za have zr: "\<And>r c. l' < int r \<Longrightarrow> r < rws \<Longrightarrow> c < cols \<Longrightarrow> ?m ! r ! c = 0"
    unfolding zeros_after_def by blast
  from cs(2) have e: "sorted_wrt (<) cs" "\<forall>c\<in>set cs. c < j'" "length cs \<le> rws"
    "\<forall>t<length cs. ?m ! t ! (cs ! t) = 1 \<and> (\<forall>k<cs ! t. ?m ! t ! k = 0)"
    and low: "\<And>r k. i' \<le> r \<Longrightarrow> r < rws \<Longrightarrow> k < j' \<Longrightarrow> ?m ! r ! k = 0"
    unfolding echelon_def cs(1) by blast+
  have rest: "?m ! r ! k = 0" if "i' \<le> r" "r < rws" "k < cols" for r k
  proof (cases "is_zero cols ?m i' \<and> int i' \<ge> l'")
    case True
    show ?thesis
    proof (cases "r = i'")
      case True
      with \<open>is_zero cols ?m i' \<and> int i' \<ge> l'\<close> that show ?thesis by (simp add: is_zero_iff)
    next
      case False
      with True that have "l' < int r" by linarith
      then show ?thesis using that(2,3) by (rule zr)
    qed
  next
    case False
    with ex that have "j' = cols" using j' by linarith
    with low that show ?thesis by simp
  qed
  have "echelon rws ?m cs cols"
    unfolding echelon_def using e j' rest cs(1) by auto
  moreover have "int (length cs) - 1 \<le> l'"
  proof (rule ccontr)
    assume "\<not> int (length cs) - 1 \<le> l'"
    moreover have "- 1 \<le> l'" using za unfolding zeros_after_def by blast
    ultimately have p: "0 < i'" "l' < int (i' - 1)" using cs(1) by linarith+
    let ?t = "i' - 1"
    have t: "?t < length cs" using p cs(1) by simp
    with e have one: "?m ! ?t ! (cs ! ?t) = 1" and "cs ! ?t < j'" by (simp_all add: nth_mem)
    then have "cs ! ?t < cols" using j' by simp
    from zr [OF p(2) _ this] t e(3) one show False by simp
  qed
  ultimately show "\<exists>cs. echelon rws (fst s') cs cols \<and> int (length cs) - 1 \<le> l'" by blast
  show "shaped rws cols (fst s')" by (rule sh)
  show "zeros_after rws cols (fst s') l'" by (rule za)
  show "trace_inv A rws cols s'" by (rule tr)
qed

section \<open>Rank and nullity\<close>




section \<open>The backward pass produces the reduced echelon form\<close>

lemma find_first:
  "c < n \<Longrightarrow> P c \<Longrightarrow> \<forall>k<c. \<not> P k \<Longrightarrow> find P [0..<n] = Some c"
  by (auto simp: find_Some_iff intro!: exI [of _ c])

lemma find_none_upt: "\<forall>k<n. \<not> P k \<Longrightarrow> find P [0..<n] = None"
  by (auto simp: find_None_iff)

lemma echelon_sorted_nth:
  "echelon rws m cs j \<Longrightarrow> t < u \<Longrightarrow> u < length cs \<Longrightarrow> cs ! t < cs ! u"
  unfolding echelon_def by (simp add: sorted_wrt_nth_less)

lemma echelon_below_pivot:
  assumes "echelon rws m cs cols" and "t < length cs" and "t < r" and "r < rws"
  shows "m ! r ! (cs ! t) = 0"
proof (cases "r < length cs")
  case True
  from echelon_sorted_nth [OF assms(1,3) True] have "cs ! t < cs ! r" .
  with assms(1) True show ?thesis unfolding echelon_def by blast
next
  case False
  have "cs ! t < cols" using assms(1,2) unfolding echelon_def by simp
  with assms(1,4) False show ?thesis unfolding echelon_def by simp
qed

lemma clear_above_zero_row:
  assumes "echelon rws (fst s) cs cols" and "length cs \<le> i" and "i < rws"
  shows "clear_above cols (int cols) i s = s"
proof -
  have "\<forall>k<cols. \<not> fst s ! i ! k \<noteq> 0"
    using assms unfolding echelon_def by simp
  then have "find (\<lambda>j. fst s ! i ! j \<noteq> 0) [0..<cols] = None" by (rule find_none_upt)
  then show ?thesis by (simp add: clear_above_def)
qed

lemma clear_above_find:
  assumes "echelon rws (fst s) cs cols" and "i < length cs"
  shows "clear_above cols (int cols) i s = eliminate cols i (cs ! i) (rev [0..<i]) s"
proof -
  have "cs ! i < cols" "fst s ! i ! (cs ! i) = 1" "\<forall>k<cs ! i. \<not> fst s ! i ! k \<noteq> 0"
    using assms unfolding echelon_def by simp_all
  then have "find (\<lambda>j. fst s ! i ! j \<noteq> 0) [0..<cols] = Some (cs ! i)"
    by (intro find_first) simp_all
  then show ?thesis by (simp add: clear_above_def)
qed

lemma backward_inv_clear_above:
  assumes "backward_inv rws cols cs (Suc i) (fst s)" and "i < length cs"
  shows "backward_inv rws cols cs i (fst (clear_above cols (int cols) i s))"
proof -
  let ?m = "fst s" and ?c = "cs ! i" and ?p = "length cs"
  let ?m' = "fst (eliminate cols i ?c (rev [0..<i]) s)"
  from assms(1) have sh: "shaped rws cols ?m" and ech: "echelon rws ?m cs cols"
    and cleared: "\<And>t r. i < t \<Longrightarrow> t < ?p \<Longrightarrow> r < rws \<Longrightarrow> r \<noteq> t \<Longrightarrow> ?m ! r ! (cs ! t) = 0"
    unfolding backward_inv_def by (blast, blast, simp)
  from ech have p: "?p \<le> rws" and cl: "\<And>t. t < ?p \<Longrightarrow> cs ! t < cols"
    and piv: "\<And>t. t < ?p \<Longrightarrow> ?m ! t ! (cs ! t) = 1"
    and lead: "\<And>t k. t < ?p \<Longrightarrow> k < cs ! t \<Longrightarrow> ?m ! t ! k = 0"
    and low: "\<And>r k. ?p \<le> r \<Longrightarrow> r < rws \<Longrightarrow> k < cols \<Longrightarrow> ?m ! r ! k = 0"
    unfolding echelon_def by (blast, simp, blast, blast, blast)
  have i: "i < rws" using assms(2) p by simp
  have ks: "i \<notin> set (rev [0..<i])" "distinct (rev [0..<i])" "\<forall>k\<in>set (rev [0..<i]). k < rws"
    using i by auto
  have m': "?m' ! r = (if r \<in> set (rev [0..<i])
            then map (\<lambda>k. ?m ! r ! k - ?m ! r ! ?c * ?m ! i ! k) [0..<cols]
            else ?m ! r)" if "r < rws" for r
    using sh i ks that by (rule eliminate_rows)
  have same: "?m' ! r = ?m ! r" if "i \<le> r" "r < rws" for r
    using that by (simp add: m')
  have upper: "?m' ! r ! k = ?m ! r ! k - ?m ! r ! ?c * ?m ! i ! k" if "r < i" "k < cols" for r k
    using that i by (simp add: m')
  have sh': "shaped rws cols ?m'" using sh by (rule shaped_eliminate)
  have ech': "echelon rws ?m' cs cols"
    unfolding echelon_def
  proof (intro conjI allI impI ballI)
    show "sorted_wrt (<) cs" "length cs \<le> rws" using ech unfolding echelon_def by blast+
    show "c < cols" if "c \<in> set cs" for c using ech that unfolding echelon_def by blast
  next
    fix t assume t: "t < ?p"
    show "?m' ! t ! (cs ! t) = 1"
    proof (cases "t < i")
      case True
      from echelon_sorted_nth [OF ech True assms(2)] have "cs ! t < ?c" .
      then have "?m ! i ! (cs ! t) = 0" using lead [OF assms(2)] by simp
      with upper [OF True cl [OF t]] piv [OF t] show ?thesis by simp
    next
      case False
      with same [of t] t p piv [OF t] show ?thesis by simp
    qed
  next
    fix t k assume t: "t < ?p" and k: "k < cs ! t"
    show "?m' ! t ! k = 0"
    proof (cases "t < i")
      case True
      from echelon_sorted_nth [OF ech True assms(2)] k have "k < ?c" by simp
      then have "?m ! i ! k = 0" using lead [OF assms(2)] by simp
      moreover have "k < cols" using k cl [OF t] by simp
      ultimately show ?thesis using upper [OF True] lead [OF t k] by simp
    next
      case False
      with same [of t] t p lead [OF t k] show ?thesis by simp
    qed
  next
    fix r k assume r: "?p \<le> r \<and> r < rws" and k: "k < cols"
    with assms(2) same [of r] low [of r k] show "?m' ! r ! k = 0" by simp
  qed
  have col: "?m' ! r ! (cs ! t) = 0" if "i \<le> t" "t < ?p" "r < rws" "r \<noteq> t" for t r
  proof (cases "t = i")
    case True
    show ?thesis
    proof (cases "r < i")
      case True
      with upper [OF True cl [OF assms(2)]] piv [OF assms(2)] \<open>t = i\<close> show ?thesis by simp
    next
      case False
      with that True have "i < r" by simp
      from echelon_below_pivot [OF ech assms(2) this that(3)] same [of r] that(3) False True
      show ?thesis by simp
    qed
  next
    case False
    with that have it: "i < t" by simp
    show ?thesis
    proof (cases "r < i")
      case True
      have "?m ! r ! (cs ! t) = 0" using cleared [OF it that(2,3,4)] .
      moreover have "?m ! i ! (cs ! t) = 0" using cleared [OF it that(2) i] it by simp
      ultimately show ?thesis using upper [OF True cl [OF that(2)]] by simp
    next
      case False
      with same [of r] that(3) cleared [OF it that(2,3,4)] show ?thesis by simp
    qed
  qed
  have "backward_inv rws cols cs i ?m'"
    unfolding backward_inv_def using sh' ech' col by blast
  then show ?thesis by (simp add: clear_above_find [OF ech assms(2)])
qed

lemma fold_rev_upt_Suc: "fold f (rev [0..<Suc n]) s = fold f (rev [0..<n]) (f n s)"
  by simp

lemma backward_inv_fold:
  assumes "n \<le> rws" and "backward_inv rws cols cs n (fst s)"
  shows "backward_inv rws cols cs 0
           (fst (fold (\<lambda>i s. clear_above cols (int cols) i s) (rev [0..<n]) s))"
  using assms
proof (induction n arbitrary: s)
  case 0
  then show ?case by simp
next
  case (Suc n)
  let ?s1 = "clear_above cols (int cols) n s"
  have ech: "echelon rws (fst s) cs cols" using Suc.prems(2) unfolding backward_inv_def by blast
  have "backward_inv rws cols cs n (fst ?s1)"
  proof (cases "n < length cs")
    case True
    with Suc.prems(2) show ?thesis by (rule backward_inv_clear_above)
  next
    case False
    then have "?s1 = s" using Suc.prems(1) by (intro clear_above_zero_row [OF ech]) simp_all
    with Suc.prems(2) False show ?thesis unfolding backward_inv_def by simp
  qed
  with Suc.prems(1) Suc.IH [of ?s1] show ?case
    unfolding fold_rev_upt_Suc by simp
qed

lemma reduced_rows_rref_form:
  assumes "shaped rws cols A" and "0 < rws" and "cols = length (hd A)"
  shows "\<exists>cs. rref_form rws cols (fst (reduced_rows True A)) cs"
proof -
  have len: "length A = rws" using assms(1) by (rule shaped_length)
  obtain l' s' where f: "forward rws cols (int cols) 0 0
      (last_nz_loop cols A (int rws - 1)) (A, []) = (l', s')"
    by (cases "forward rws cols (int cols) 0 0 (last_nz_loop cols A (int rws - 1)) (A, [])")
  from forward_echelon [OF assms(1,2) f]
  obtain cs where ech: "echelon rws (fst s') cs cols" and pl: "int (length cs) - 1 \<le> l'"
    and sh: "shaped rws cols (fst s')" and za: "zeros_after rws cols (fst s') l'" by blast
  let ?n = "nat (l' + 1)"
  have n: "?n \<le> rws" "length cs \<le> ?n"
    using za pl unfolding zeros_after_def by linarith+
  have "backward_inv rws cols cs ?n (fst s')"
    unfolding backward_inv_def using sh ech n(2) by auto
  with n(1) have "backward_inv rws cols cs 0
           (fst (fold (\<lambda>i s. clear_above cols (int cols) i s) (rev [0..<?n]) s'))"
    by (rule backward_inv_fold)
  moreover have "reduced_rows True A = backward cols (int cols) l' s'"
    using f by (simp add: reduced_rows_def len assms(3) [symmetric])
  ultimately have "backward_inv rws cols cs 0 (fst (reduced_rows True A))"
    by (simp add: backward_def)
  then have "rref_form rws cols (fst (reduced_rows True A)) cs"
    unfolding backward_inv_def rref_form_def by simp
  then show ?thesis by blast
qed

section \<open>A reduced echelon form is left as it is\<close>

lemma last_nz_loop_pivots:
  assumes "int p - 1 \<le> l" and "\<forall>r. p \<le> r \<and> int r \<le> l \<longrightarrow> is_zero cols m r"
    and "0 < p \<longrightarrow> \<not> is_zero cols m (p - 1)"
  shows "last_nz_loop cols m l = int p - 1"
  using assms
proof (induction cols m l rule: last_nz_loop.induct)
  case (1 cols m l)
  show ?case
  proof (cases "l \<ge> 0 \<and> is_zero cols m (nat l)")
    case True
    have "l \<noteq> int p - 1"
    proof
      assume e: "l = int p - 1"
      with True have "0 < p" by simp
      moreover from e True have "nat l = p - 1" by simp
      ultimately show False using "1.prems"(3) True by simp
    qed
    with "1.prems"(1) have "int p - 1 \<le> l - 1" by simp
    moreover have "\<forall>r. p \<le> r \<and> int r \<le> l - 1 \<longrightarrow> is_zero cols m r"
      using "1.prems"(2) by simp
    ultimately have "last_nz_loop cols m (l - 1) = int p - 1"
      using "1.prems"(3) by (intro "1.IH" True)
    with True show ?thesis by (simp add: last_nz_loop.simps [of cols m l])
  next
    case False
    have stop: "last_nz_loop cols m l = l"
      using False by (subst last_nz_loop.simps) auto
    have "l = int p - 1"
    proof (rule ccontr)
      assume "l \<noteq> int p - 1"
      with "1.prems"(1) have "int p \<le> l" by simp
      then have "p \<le> nat l \<and> int (nat l) \<le> l" "0 \<le> l" by simp_all
      with "1.prems"(2) False show False by blast
    qed
    with stop show ?thesis by simp
  qed
qed

lemma rref_form_last_nz:
  assumes "rref_form rws cols R cs" and "0 < rws"
  shows "last_nz_loop cols R (int rws - 1) = int (length cs) - 1"
proof (rule last_nz_loop_pivots)
  from assms(1) have ech: "echelon rws R cs cols" unfolding rref_form_def by blast
  show "int (length cs) - 1 \<le> int rws - 1" using ech unfolding echelon_def by simp
  show "\<forall>r. length cs \<le> r \<and> int r \<le> int rws - 1 \<longrightarrow> is_zero cols R r"
    using ech unfolding echelon_def is_zero_iff by simp
  show "0 < length cs \<longrightarrow> \<not> is_zero cols R (length cs - 1)"
  proof
    assume "0 < length cs"
    then have t: "length cs - 1 < length cs" by simp
    with ech have "cs ! (length cs - 1) < cols" "R ! (length cs - 1) ! (cs ! (length cs - 1)) = 1"
      unfolding echelon_def by simp_all
    then show "\<not> is_zero cols R (length cs - 1)"
      unfolding is_zero_iff by (metis zero_neq_one)
  qed
qed

lemma forward_rref_form:
  assumes "rref_form rws cols R cs"
    and "i \<le> length cs" and "\<forall>t<i. cs ! t < j" and "i < length cs \<longrightarrow> j \<le> cs ! i"
  shows "forward rws cols (int cols) i j (int (length cs) - 1) (R, out)
           = (int (length cs) - 1, (R, out))"
  using assms(2-4)
proof (induction "cols - j" arbitrary: i j rule: less_induct)
  case less
  let ?p = "length cs" and ?s = "(R, out)"
  from assms(1) have ech: "echelon rws R cs cols"
    and only: "\<And>t r. t < ?p \<Longrightarrow> r < rws \<Longrightarrow> r \<noteq> t \<Longrightarrow> R ! r ! (cs ! t) = 0"
    unfolding rref_form_def by (blast, simp)
  from ech have p: "?p \<le> rws" and cl: "\<And>t. t < ?p \<Longrightarrow> cs ! t < cols"
    and piv: "\<And>t. t < ?p \<Longrightarrow> R ! t ! (cs ! t) = 1"
    and lead: "\<And>t k. t < ?p \<Longrightarrow> k < cs ! t \<Longrightarrow> R ! t ! k = 0"
    and low: "\<And>r k. ?p \<le> r \<Longrightarrow> r < rws \<Longrightarrow> k < cols \<Longrightarrow> R ! r ! k = 0"
    unfolding echelon_def by (blast, simp, blast, blast, blast)
  show ?case
  proof (cases "i < rws \<and> int j < int cols")
    case False
    then show ?thesis by (rule forward_stop)
  next
    case loop: True
    then have i: "i < rws" and j: "j < cols" by simp_all
    show ?thesis
    proof (cases "i = ?p")
      case True
      have "is_zero cols (fst ?s) i" using low [of i] i True by (simp add: is_zero_iff)
      moreover have "int i \<ge> int ?p - 1" using True by simp
      ultimately show ?thesis by (rule forward_break)
    next
      case False
      with less.prems(1) have ip: "i < ?p" by simp
      with less.prems(3) have jc: "j \<le> cs ! i" by simp
      have nz: "\<not> is_zero cols R i"
        unfolding is_zero_iff using cl [OF ip] piv [OF ip] by (metis zero_neq_one)
      then have nb: "\<not> (is_zero cols (fst ?s) i \<and> int i \<ge> int ?p - 1)" by simp
      have push: "push_zero_row cols i (int ?p - 1) ?s = (int ?p - 1, ?s)"
        using nz by (simp add: push_zero_row_def)
      have colj: "R ! k ! j = 0" if "i < k" "k < ?p" for k
      proof -
        from echelon_sorted_nth [OF ech that] jc have "j < cs ! k" by simp
        with lead [OF that(2)] show ?thesis by simp
      qed
      have rng: "nat (int ?p - 1 + 1) = ?p" by simp
      have "find (\<lambda>k. fst ?s ! k ! j \<noteq> 0) [i + 1..<?p] = None"
        using colj by (auto simp: find_None_iff)
      then have fp: "find_pivot i j (int ?p - 1) ?s = ?s"
        by (simp add: find_pivot_def rng)
      have jt: "int j < int cols" using j by simp
      note step = forward_step [OF i jt nb push fp [symmetric], unfolded rng]
      show ?thesis
      proof (cases "R ! i ! j = 0")
        case True
        with piv [OF ip] jc have jlt: "j < cs ! i" by (cases "j = cs ! i") auto
        have "forward rws cols (int cols) i (j + 1) (int ?p - 1) ?s = (int ?p - 1, ?s)"
        proof (rule less.hyps)
          show "cols - (j + 1) < cols - j" using j by simp
          show "i \<le> ?p" by (rule less.prems(1))
          show "\<forall>t<i. cs ! t < j + 1" using less.prems(2) by auto
          show "i < ?p \<longrightarrow> j + 1 \<le> cs ! i" using jlt by simp
        qed
        with True show ?thesis using j by (simp add: step)
      next
        case False
        have jeq: "j = cs ! i"
        proof (rule ccontr)
          assume "j \<noteq> cs ! i"
          with jc have "j < cs ! i" by simp
          with lead [OF ip] False show False by simp
        qed
        have one: "R ! i ! j = 1" using piv [OF ip] jeq by simp
        then have np: "normalize_pivot cols i j ?s = ?s" by (simp add: normalize_pivot_def)
        have "\<forall>k\<in>set [Suc i..<?p]. fst ?s ! k ! j = 0"
          using only [OF ip] p jeq by auto
        then have el: "eliminate cols i j [Suc i..<?p] ?s = ?s" by (rule eliminate_nothing)
        have "forward rws cols (int cols) (i + 1) (j + 1) (int ?p - 1) ?s = (int ?p - 1, ?s)"
        proof (rule less.hyps)
          show "cols - (j + 1) < cols - j" using j by simp
          show "i + 1 \<le> ?p" using ip by simp
          show "\<forall>t<i + 1. cs ! t < j + 1" using less.prems(2) jeq by (auto simp: less_Suc_eq)
          show "i + 1 < ?p \<longrightarrow> j + 1 \<le> cs ! (i + 1)"
            using echelon_sorted_nth [OF ech, of i "i + 1"] jeq by auto
        qed
        with False show ?thesis using j by (simp add: step np el)
      qed
    qed
  qed
qed

lemma fold_fixed: "\<forall>x\<in>set xs. f x s = s \<Longrightarrow> fold f xs s = s"
  by (induction xs) simp_all

lemma backward_rref_form:
  assumes "rref_form rws cols R cs"
  shows "backward cols (int cols) (int (length cs) - 1) (R, out) = (R, out)"
proof -
  from assms have ech: "echelon rws R cs cols"
    and only: "\<And>t r. t < length cs \<Longrightarrow> r < rws \<Longrightarrow> r \<noteq> t \<Longrightarrow> R ! r ! (cs ! t) = 0"
    unfolding rref_form_def by (blast, simp)
  have p: "length cs \<le> rws" using ech unfolding echelon_def by blast
  have "clear_above cols (int cols) i (R, out) = (R, out)" if "i < length cs" for i
  proof -
    have "\<forall>k\<in>set (rev [0..<i]). fst (R, out) ! k ! (cs ! i) = 0"
      using only [OF that] that p by auto
    then have "eliminate cols i (cs ! i) (rev [0..<i]) (R, out) = (R, out)"
      by (rule eliminate_nothing)
    then show ?thesis using clear_above_find [of rws "(R, out)" cs cols i] ech that by simp
  qed
  then have "fold (\<lambda>i s. clear_above cols (int cols) i s) (rev [0..<length cs]) (R, out) = (R, out)"
    by (intro fold_fixed) simp
  moreover have "nat (int (length cs) - 1 + 1) = length cs" by simp
  ultimately show ?thesis by (simp add: backward_def)
qed

lemma reduced_rows_fixed:
  assumes "rref_form rws cols R cs" and "0 < rws"
  shows "reduced_rows True R = (R, [])"
proof -
  from assms(1) have sh: "shaped rws cols R" unfolding rref_form_def by blast
  then have len: "length R = rws" by (rule shaped_length)
  with assms(2) have "R \<noteq> []" by auto
  then have "hd R = R ! 0" by (rule hd_conv_nth)
  then have c: "length (hd R) = cols" using shaped_nth [OF sh assms(2)] by simp
  have f: "forward rws cols (int cols) 0 0 (int (length cs) - 1) (R, [])
           = (int (length cs) - 1, (R, []))"
    using assms(1) by (rule forward_rref_form) auto
  show ?thesis
    by (simp add: reduced_rows_def len c rref_form_last_nz [OF assms] f
        backward_rref_form [OF assms(1)])
qed

section \<open>Row reduction to reduced echelon form is idempotent\<close>

text \<open>
  C7. For every matrix \<open>A\<close>, \<open>row_reduce(A, rref=True)\<close> returns a matrix \<open>R\<close> in
  reduced row echelon form, and \<open>row_reduce(R, rref=True)\<close> returns \<open>R\<close> again.
\<close>

theorem row_reduce_rref_idempotent:
  fixes A :: "('a::field) list list"
  assumes "wf_matrix A"
  shows "\<exists>R cs.
           row_reduce (Matrix A) True None None = Inr (Matrix R, None)
         \<and> rref_form (length A) (length (hd A)) R cs
         \<and> row_reduce (Matrix R) True None None = Inr (Matrix R, None)"
proof -
  let ?rws = "length A" and ?cols = "length (hd A)"
  let ?R = "fst (reduced_rows True A)"
  have pos: "0 < ?rws" using assms by (simp add: wf_matrix_def)
  have sh: "shaped ?rws ?cols A" using assms by (rule wf_matrix_shaped)
  have first: "row_reduce (Matrix A) True None None = Inr (Matrix ?R, None)"
    using row_reduce_default [OF assms, of True None] by simp
  from reduced_rows_rref_form [OF sh pos refl]
  obtain cs where rref: "rref_form ?rws ?cols ?R cs" by blast
  then have "shaped ?rws ?cols ?R" unfolding rref_form_def by blast
  then have wf: "wf_matrix ?R" using pos by (rule shaped_wf_matrix)
  have "reduced_rows True ?R = (?R, [])" using rref pos by (rule reduced_rows_fixed)
  then have "row_reduce (Matrix ?R) True None None = Inr (Matrix ?R, None)"
    using row_reduce_default [OF wf, of True None] by simp
  with first rref show ?thesis by blast
qed

theorem row_reduce_rref_idempotent_witness:
  "wf_matrix [[1::rat, 2], [3, 4]]
   \<and> row_reduce (Matrix [[1::rat, 2], [3, 4]]) True None None = Inr (Matrix [[1, 0], [0, 1]], None)
   \<and> row_reduce (Matrix [[1::rat, 0], [0, 1]]) True None None = Inr (Matrix [[1, 0], [0, 1]], None)"
proof -
  have h: "wf_matrix [[1::rat, 2], [3, 4]]" by (simp add: wf_matrix_def)
  have e: "row_reduce (Matrix [[1::rat, 2], [3, 4]]) True None None = Inr (Matrix [[1, 0], [0, 1]], None)"
    by code_simp
  from row_reduce_rref_idempotent [OF h] obtain R where
    "row_reduce (Matrix [[1::rat, 2], [3, 4]]) True None None = Inr (Matrix R, None)"
    and again: "row_reduce (Matrix R) True None None = Inr (Matrix R, None)"
    by blast
  with e have "R = [[1, 0], [0, 1]]" by simp
  with again h e show ?thesis by simp
qed

end
